theory Spec2Isabelle
  imports Complex_Main "HOL-Library.AList" "HOL-Library.Char_ord" "HOL-Library.List_Lexorder"
begin

section \<open>Values, errors and the random generator\<close>

text \<open>
  The notebook \<^verbatim>\<open>coins.ipynb\<close> is dynamically typed: outcomes and source names are
  Python integers (a die's face, a die's default name, a counter's tally) or Python
  strings (a coin's face, a coin's name). The exceptions that the code can raise are
  those of the builtins it calls.
\<close>

datatype pyval = is_PInt: PInt (the_int: int) | is_PStr: PStr (the_str: string)

datatype error =
  ValueError | IndexError | TypeError | OverflowError | AttributeError | RecursionError

text \<open>
  Every draw reads the process-wide generator of Python's \<^verbatim>\<open>random\<close> module. The
  generator is a state of its own: an arbitrary sequence of raw outputs (\<open>tape\<close>) and
  the number of outputs consumed so far (\<open>pos\<close>). Each library call below consumes
  one raw output.
\<close>

record rng =
  tape :: "nat \<Rightarrow> nat"
  pos :: nat

definition next_raw :: "rng \<Rightarrow> nat \<times> rng" where
  "next_raw g = (tape g (pos g), g\<lparr>pos := Suc (pos g)\<rparr>)"

text \<open>
  \<^verbatim>\<open>random.randint(a, b)\<close>: an integer \<open>N\<close> with \<open>a \<le> N \<le> b\<close>; an empty range
  raises \<^verbatim>\<open>ValueError\<close> before the generator is read.
\<close>

definition randint :: "int \<Rightarrow> int \<Rightarrow> rng \<Rightarrow> (error + int) \<times> rng" where
  "randint a b g =
     (if b < a then (Inl ValueError, g)
      else (case next_raw g of (r, g') \<Rightarrow> (Inr (a + int (r mod nat (b - a + 1))), g')))"

text \<open>
  \<^verbatim>\<open>random.random()\<close>: a float with 53 bits of precision in \<open>[0, 1)\<close>, that is
  \<open>k / 2^53\<close> for some \<open>k < 2^53\<close>. \<^verbatim>\<open>random.uniform(a, b)\<close> is
  \<^verbatim>\<open>a + (b - a) * random()\<close>. The coin calls \<^verbatim>\<open>uniform(-1, 1)\<close>, where
  \<open>-1 + 2 * k / 2^53\<close> is computed without rounding, so the real number below is the
  float the program compares with the bias.
\<close>

definition random_unit :: "rng \<Rightarrow> real \<times> rng" where
  "random_unit g = (case next_raw g of (r, g') \<Rightarrow> (real (r mod 2 ^ 53) / 2 ^ 53, g'))"

definition uniform :: "real \<Rightarrow> real \<Rightarrow> rng \<Rightarrow> real \<times> rng" where
  "uniform a b g = (case random_unit g of (u, g') \<Rightarrow> (a + (b - a) * u, g'))"

text \<open>
  \<^verbatim>\<open>random.choice(seq)\<close>: an element of a non-empty sequence; an empty sequence
  raises \<^verbatim>\<open>IndexError\<close>.
\<close>

definition choice :: "'a list \<Rightarrow> rng \<Rightarrow> (error + 'a) \<times> rng" where
  "choice seq g =
     (if seq = [] then (Inl IndexError, g)
      else (case next_raw g of (r, g') \<Rightarrow> (Inr (seq ! (r mod length seq)), g')))"

section \<open>Sources: \<^verbatim>\<open>Die\<close>, \<^verbatim>\<open>Coin\<close>, \<^verbatim>\<open>Counter\<close>\<close>

text \<open>
  An object of one of the three classes, with the attributes its constructor sets.
  \<open>cvalue\<close> is the attribute \<^verbatim>\<open>value\<close> of a \<^verbatim>\<open>Counter\<close>.
\<close>

datatype source =
    Die (sides: int) (name: pyval)
  | Coin (bias: real) (name: pyval)
  | Counter (source: source) (cvalue: pyval) (nDraws: int) (name: pyval)

text \<open>\<^verbatim>\<open>Die.__init__(self, sides, name=None)\<close>: the name defaults to the side count.\<close>

definition Die_init :: "int \<Rightarrow> pyval option \<Rightarrow> source" where
  "Die_init s nm = Die s (case nm of None \<Rightarrow> PInt s | Some n \<Rightarrow> n)"

text \<open>
  \<^verbatim>\<open>Coin.__init__(self, bias=0)\<close>: \<^verbatim>\<open>'FairCoin'\<close> when the bias is falsy, else
  \<^verbatim>\<open>'Coin:%s' % bias\<close>. The text that \<^verbatim>\<open>%s\<close> makes of a number is the
  parameter \<open>fmt\<close>.
\<close>

definition Coin_init :: "(real \<Rightarrow> string) \<Rightarrow> real \<Rightarrow> source" where
  "Coin_init fmt b = Coin b (PStr (if b = 0 then ''FairCoin'' else ''Coin:'' @ fmt b))"

text \<open>\<^verbatim>\<open>Counter.__init__(self, source, value, nDraws)\<close>: the name is the wrapped source's.\<close>

definition Counter_init :: "source \<Rightarrow> pyval \<Rightarrow> int \<Rightarrow> source" where
  "Counter_init src v n = Counter src v n (name src)"

text \<open>
  The loop of \<^verbatim>\<open>Counter.draw\<close>: \<open>n\<close> iterations are left, \<open>tally\<close> is the variable
  \<^verbatim>\<open>total\<close>, \<open>d\<close> is the wrapped source's \<^verbatim>\<open>draw\<close>. An exception of the wrapped draw
  leaves the loop. The loop threads the state that \<open>d\<close> works on: the generator, or the
  whole store of the program (below).
\<close>

fun count_loop ::
  "('s \<Rightarrow> (error + pyval) \<times> 's) \<Rightarrow> pyval \<Rightarrow> nat \<Rightarrow> int \<Rightarrow> 's \<Rightarrow> (error + pyval) \<times> 's"
where
  "count_loop d v 0 tally g = (Inr (PInt tally), g)"
| "count_loop d v (Suc n) tally g =
     (case d g of
        (Inl e, g') \<Rightarrow> (Inl e, g')
      | (Inr x, g') \<Rightarrow> count_loop d v n (if x = v then tally + 1 else tally) g')"

text \<open>The method \<^verbatim>\<open>draw\<close> of the three classes; \<^verbatim>\<open>range(k)\<close> is empty for \<open>k < 0\<close>.\<close>

primrec draw :: "source \<Rightarrow> rng \<Rightarrow> (error + pyval) \<times> rng" where
  "draw (Die s nm) =
     (\<lambda>g. case randint 1 s g of
             (Inl e, g') \<Rightarrow> (Inl e, g')
           | (Inr n, g') \<Rightarrow> (Inr (PInt n), g'))"
| "draw (Coin b nm) =
     (\<lambda>g. case uniform (- 1) 1 g of
             (u, g') \<Rightarrow> (Inr (PStr (if u < b then ''Heads'' else ''Tails'')), g'))"
| "draw (Counter src v k nm) = count_loop (draw src) v (nat k) 0"

section \<open>The trial runner\<close>

text \<open>
  The accumulator \<^verbatim>\<open>results\<close> is a dictionary of dictionaries,
  \<^verbatim>\<open>{ Result: { Source: count }}\<close>. A dictionary is the list of its items in
  insertion order; storing under a key replaces the item in place or appends it.
\<close>

type_synonym row = "(pyval \<times> int) list"
type_synonym accumulator = "(pyval \<times> row) list"

definition dict_get :: "('k \<times> 'v) list \<Rightarrow> 'k \<Rightarrow> 'v \<Rightarrow> 'v" where
  "dict_get d k dflt = (case map_of d k of None \<Rightarrow> dflt | Some v \<Rightarrow> v)"

definition dict_set :: "('k \<times> 'v) list \<Rightarrow> 'k \<Rightarrow> 'v \<Rightarrow> ('k \<times> 'v) list" where
  "dict_set d k v = AList.update k v d"

text \<open>
  \<^verbatim>\<open>Trial._add(self, name, result)\<close>. The lookup \<^verbatim>\<open>results[result]\<close> follows the
  statement that stores the key, so its \<^verbatim>\<open>KeyError\<close> branch is never taken
  (lemma \<open>Trial_add_lookup\<close>).
\<close>

definition Trial_add :: "pyval \<Rightarrow> pyval \<Rightarrow> accumulator \<Rightarrow> accumulator" where
  "Trial_add nm result results0 =
     (let results1 = (if map_of results0 result = None then dict_set results0 result []
                      else results0)
      in case map_of results1 result of
           None \<Rightarrow> results1
         | Some r \<Rightarrow> dict_set results1 result (dict_set r nm (dict_get r nm 0 + 1)))"

text \<open>
  A \<^verbatim>\<open>UniformSelectionTrial\<close>: the accumulator of \<^verbatim>\<open>Trial.__init__\<close> and the
  sources of its own constructor.
\<close>

record trial =
  results :: accumulator
  sources :: "source list"

definition UniformSelectionTrial_init :: "source list \<Rightarrow> trial" where
  "UniformSelectionTrial_init srcs = \<lparr>results = [], sources = srcs\<rparr>"

definition chooseSource :: "trial \<Rightarrow> rng \<Rightarrow> (error + source) \<times> rng" where
  "chooseSource t g = choice (sources t) g"

text \<open>
  The loop of \<^verbatim>\<open>Trial.run\<close>, with \<open>n\<close> iterations left. An exception of
  \<^verbatim>\<open>chooseSource\<close> or of \<^verbatim>\<open>draw\<close> ends the run; the trial keeps what it has
  recorded and the generator what it has consumed.
\<close>

fun run_loop :: "nat \<Rightarrow> trial \<Rightarrow> rng \<Rightarrow> (error + unit) \<times> trial \<times> rng" where
  "run_loop 0 t g = (Inr (), t, g)"
| "run_loop (Suc n) t g =
     (case chooseSource t g of
        (Inl e, g1) \<Rightarrow> (Inl e, t, g1)
      | (Inr src, g1) \<Rightarrow>
          (case draw src g1 of
             (Inl e, g2) \<Rightarrow> (Inl e, t, g2)
           | (Inr r, g2) \<Rightarrow>
               run_loop n (t\<lparr>results := Trial_add (name src) r (results t)\<rparr>) g2))"

definition run :: "int \<Rightarrow> trial \<Rightarrow> rng \<Rightarrow> (error + unit) \<times> trial \<times> rng" where
  "run n t g = run_loop (nat n) t g"

section \<open>The objects of the program and its store\<close>

text \<open>
  In Python the sources and the trial are objects that refer to each other: a
  \<^verbatim>\<open>Counter\<close> holds a reference to the source it wraps, a trial a list of references to
  its sources, and a method can write every attribute of every object it reaches. For
  the effects of a run the state of the program is therefore modelled as a whole: a
  store that maps addresses to objects, and the generator of the module \<^verbatim>\<open>random\<close>.
  Every method below receives the whole state and returns the whole state.
\<close>

type_synonym addr = nat

datatype obj =
    DieObj int pyval
  | CoinObj real pyval
  | CounterObj addr pyval int pyval
  | TrialObj accumulator "addr list"

record world =
  objs :: "addr \<Rightarrow> obj option"
  gen :: rng

text \<open>The store of a program that has created no object yet.\<close>

definition no_objects :: "addr \<Rightarrow> obj option" where
  "no_objects a = None"

text \<open>
  The attribute \<^verbatim>\<open>name\<close> of the object at an address. A trial has no such attribute
  and no method \<^verbatim>\<open>draw\<close>: \<^verbatim>\<open>AttributeError\<close>. (An address without an object is no
  reference of a Python program; the model raises the same error there.)
\<close>

definition name_obj :: "addr \<Rightarrow> world \<Rightarrow> error + pyval" where
  "name_obj a w =
     (case objs w a of
        Some (DieObj s nm) \<Rightarrow> Inr nm
      | Some (CoinObj b nm) \<Rightarrow> Inr nm
      | Some (CounterObj src v k nm) \<Rightarrow> Inr nm
      | _ \<Rightarrow> Inl AttributeError)"

text \<open>
  The method \<^verbatim>\<open>draw\<close> of the object at an address. A counter calls the \<^verbatim>\<open>draw\<close> of
  the object it refers to, which may be a counter again, and on a store with a cycle of
  counters the calls never end by themselves: Python ends them with
  \<^verbatim>\<open>RecursionError\<close> when its stack is full. The first argument is the number of
  calls for which the stack has room.
\<close>

primrec draw_obj :: "nat \<Rightarrow> addr \<Rightarrow> world \<Rightarrow> (error + pyval) \<times> world" where
  "draw_obj 0 = (\<lambda>a w. (Inl RecursionError, w))"
| "draw_obj (Suc d) =
     (\<lambda>a w. case objs w a of
              Some (DieObj s nm) \<Rightarrow>
                (case randint 1 s (gen w) of
                   (Inl e, g') \<Rightarrow> (Inl e, w\<lparr>gen := g'\<rparr>)
                 | (Inr n, g') \<Rightarrow> (Inr (PInt n), w\<lparr>gen := g'\<rparr>))
            | Some (CoinObj b nm) \<Rightarrow>
                (case uniform (- 1) 1 (gen w) of
                   (u, g') \<Rightarrow> (Inr (PStr (if u < b then ''Heads'' else ''Tails'')), w\<lparr>gen := g'\<rparr>))
            | Some (CounterObj src v k nm) \<Rightarrow> count_loop (draw_obj d src) v (nat k) 0 w
            | _ \<Rightarrow> (Inl AttributeError, w))"

text \<open>
  \<^verbatim>\<open>UniformSelectionTrial.chooseSource\<close> and \<^verbatim>\<open>Trial._add\<close> of the trial at address
  \<open>t\<close>.
\<close>

definition chooseSource_obj :: "addr \<Rightarrow> world \<Rightarrow> (error + addr) \<times> world" where
  "chooseSource_obj t w =
     (case objs w t of
        Some (TrialObj acc srcs) \<Rightarrow> (case choice srcs (gen w) of (r, g') \<Rightarrow> (r, w\<lparr>gen := g'\<rparr>))
      | _ \<Rightarrow> (Inl AttributeError, w))"

definition Trial_add_obj :: "addr \<Rightarrow> pyval \<Rightarrow> pyval \<Rightarrow> world \<Rightarrow> (error + unit) \<times> world" where
  "Trial_add_obj t nm result w =
     (case objs w t of
        Some (TrialObj acc srcs) \<Rightarrow>
          (Inr (), w\<lparr>objs := (objs w)(t \<mapsto> TrialObj (Trial_add nm result acc) srcs)\<rparr>)
      | _ \<Rightarrow> (Inl AttributeError, w))"

text \<open>
  \<^verbatim>\<open>Trial.run\<close> of the trial at address \<open>t\<close>, with \<open>n\<close> iterations left. In
  \<^verbatim>\<open>self._add(src.name, src.draw())\<close> the name is read before the draw.
\<close>

fun run_loop_obj :: "nat \<Rightarrow> nat \<Rightarrow> addr \<Rightarrow> world \<Rightarrow> (error + unit) \<times> world" where
  "run_loop_obj d 0 t w = (Inr (), w)"
| "run_loop_obj d (Suc n) t w =
     (case chooseSource_obj t w of
        (Inl e, w1) \<Rightarrow> (Inl e, w1)
      | (Inr src, w1) \<Rightarrow>
          (case name_obj src w1 of
             Inl e \<Rightarrow> (Inl e, w1)
           | Inr nm \<Rightarrow>
               (case draw_obj d src w1 of
                  (Inl e, w2) \<Rightarrow> (Inl e, w2)
                | (Inr r, w2) \<Rightarrow>
                    (case Trial_add_obj t nm r w2 of
                       (Inl e, w3) \<Rightarrow> (Inl e, w3)
                     | (Inr u, w3) \<Rightarrow> run_loop_obj d n t w3))))"

definition run_obj :: "nat \<Rightarrow> int \<Rightarrow> addr \<Rightarrow> world \<Rightarrow> (error + unit) \<times> world" where
  "run_obj d n t w = run_loop_obj d (nat n) t w"

text \<open>
  A store holds a source, as the sections above describe it, at an address when the
  object there and the objects it refers to have the attributes of the source; the
  height of a source is the number of nested calls of \<^verbatim>\<open>draw\<close> that a draw makes.
\<close>

fun holds :: "(addr \<Rightarrow> obj option) \<Rightarrow> addr \<Rightarrow> source \<Rightarrow> bool" where
  "holds h a (Die s nm) = (h a = Some (DieObj s nm))"
| "holds h a (Coin b nm) = (h a = Some (CoinObj b nm))"
| "holds h a (Counter src v k nm) =
     (case h a of
        Some (CounterObj a' v' k' nm') \<Rightarrow> v' = v \<and> k' = k \<and> nm' = nm \<and> holds h a' src
      | _ \<Rightarrow> False)"

text \<open>
  Two relations between the state before and the state after: \<open>reads_only\<close>, under
  which nothing of the store has changed and the generator has only moved forward on its
  sequence; and \<open>run_frame_rel t\<close>, under which this holds of everything but the trial
  at address \<open>t\<close>, which is a trial with the sources it had, whatever its accumulator.
\<close>

definition reads_only :: "world \<Rightarrow> world \<Rightarrow> bool" where
  "reads_only w w' =
     (objs w' = objs w \<and> tape (gen w') = tape (gen w) \<and> pos (gen w) \<le> pos (gen w'))"

definition same_but_results :: "obj option \<Rightarrow> obj option \<Rightarrow> bool" where
  "same_but_results x y =
     (case x of
        Some (TrialObj acc srcs) \<Rightarrow>
          (case y of Some (TrialObj acc' srcs') \<Rightarrow> srcs' = srcs | _ \<Rightarrow> False)
      | _ \<Rightarrow> y = x)"

definition run_frame_rel :: "addr \<Rightarrow> world \<Rightarrow> world \<Rightarrow> bool" where
  "run_frame_rel t w w' =
     (objs w' = (objs w)(t := objs w' t) \<and> same_but_results (objs w t) (objs w' t)
      \<and> tape (gen w') = tape (gen w) \<and> pos (gen w) \<le> pos (gen w'))"

fun height :: "source \<Rightarrow> nat" where
  "height (Die s nm) = 1"
| "height (Coin b nm) = 1"
| "height (Counter src v k nm) = Suc (height src)"

text \<open>
  The pairs (source name, outcome) that a run records, in order: the iterations it
  completes. This is a function of the proof, not of the program.
\<close>

fun run_log :: "nat \<Rightarrow> trial \<Rightarrow> rng \<Rightarrow> (pyval \<times> pyval) list" where
  "run_log 0 t g = []"
| "run_log (Suc n) t g =
     (case chooseSource t g of
        (Inl e, g1) \<Rightarrow> []
      | (Inr src, g1) \<Rightarrow>
          (case draw src g1 of
             (Inl e, g2) \<Rightarrow> []
           | (Inr r, g2) \<Rightarrow>
               (name src, r) #
               run_log n (t\<lparr>results := Trial_add (name src) r (results t)\<rparr>) g2))"

definition add_all :: "(pyval \<times> pyval) list \<Rightarrow> accumulator \<Rightarrow> accumulator" where
  "add_all ps acc = fold (\<lambda>(nm, r). Trial_add nm r) ps acc"

text \<open>
  Quantities of the proofs: the sum of one outcome's counts and of all counts, a lower
  bound on every count, rows that hold a cell, and a generator that has only moved
  forward on its sequence.
\<close>

definition row_total :: "accumulator \<Rightarrow> pyval \<Rightarrow> int" where
  "row_total acc r = sum_list (map snd (dict_get acc r []))"

definition counts_ge :: "int \<Rightarrow> accumulator \<Rightarrow> bool" where
  "counts_ge m acc = list_all (\<lambda>(k, r). list_all (\<lambda>(n, c). m \<le> c) r) acc"

definition rows_nonempty :: "accumulator \<Rightarrow> bool" where
  "rows_nonempty acc = list_all (\<lambda>(k, r). r \<noteq> []) acc"

definition rng_adv :: "rng \<Rightarrow> rng \<Rightarrow> bool" where
  "rng_adv g g' = (tape g' = tape g \<and> pos g \<le> pos g')"

definition grand_total :: "accumulator \<Rightarrow> int" where
  "grand_total acc = sum_list (map (\<lambda>(k, r). sum_list (map snd r)) acc)"

text \<open>
  The probability that a source shows heads on its next draw, when the raw output that
  the draw reads is one of the \<open>2^53\<close> values of \<^verbatim>\<open>random()\<close>, each as likely as any
  other: the share of these outputs on which the draw returns \<^verbatim>\<open>'Heads'\<close>.
\<close>

definition with_raw :: "rng \<Rightarrow> nat \<Rightarrow> rng" where
  "with_raw g r = g\<lparr>tape := (tape g)(pos g := r)\<rparr>"

definition heads_probability :: "source \<Rightarrow> rng \<Rightarrow> real" where
  "heads_probability c g =
     real (card {r \<in> {..<2 ^ 53}. fst (draw c (with_raw g r)) = Inr (PStr ''Heads'')}) / 2 ^ 53"

text \<open>
  The count that the accumulator holds for an outcome and a source name; an absent cell
  reads as zero.
\<close>

definition cell :: "accumulator \<Rightarrow> pyval \<Rightarrow> pyval \<Rightarrow> int" where
  "cell acc r nm = dict_get (dict_get acc r []) nm 0"

section \<open>Binary64 numbers\<close>

text \<open>
  numpy holds the table in \<^verbatim>\<open>float64\<close>. A finite float is the real number it denotes (the
  two zeros are one number); the values that are no number are \<open>PosInf\<close>, \<open>NegInf\<close> and
  \<open>NaN\<close>. Every operation yields the exact result rounded to the nearest float, ties to
  the even significand: \<open>rhe\<close> rounds to an integer that way, \<open>expo\<close> is the binary
  exponent of a number (at least that of the subnormal numbers, found by counting up from
  it), and \<open>r64\<close> rounds to 53 significant bits at that exponent. A rounded result of
  magnitude \<open>2^1024\<close> or more is an infinity.
\<close>

datatype fval = Finite (the_real: real) | PosInf | NegInf | NaN

definition rhe :: "real \<Rightarrow> int" where
  "rhe m =
     (let f = \<lfloor>m\<rfloor>; d = m - of_int f
      in if d < 1 / 2 then f else if 1 / 2 < d then f + 1 else if even f then f else f + 1)"

fun find_expo :: "nat \<Rightarrow> int \<Rightarrow> real \<Rightarrow> int" where
  "find_expo 0 e a = e"
| "find_expo (Suc k) e a = (if 2 powi (e + 1) \<le> a then find_expo k (e + 1) a else e)"

definition expo :: "real \<Rightarrow> int" where
  "expo x = find_expo 2046 (- 1022) \<bar>x\<bar>"

definition r64 :: "real \<Rightarrow> real" where
  "r64 x = (let q = 2 powi (expo x - 52) in of_int (rhe (x / q)) * q)"

definition fl :: "real \<Rightarrow> fval" where
  "fl x =
     (let y = r64 x
      in if 2 ^ 1024 \<le> y then PosInf else if y \<le> - (2 ^ 1024) then NegInf else Finite y)"

definition max_float :: real where
  "max_float = 2 ^ 1024 - 2 ^ 971"

text \<open>
  Storing a Python integer into a \<^verbatim>\<open>float64\<close> array converts it, rounding; an integer
  that rounds to an infinity raises \<^verbatim>\<open>OverflowError\<close>.
\<close>

definition float_of_int :: "int \<Rightarrow> error + real" where
  "float_of_int v = (case fl (real_of_int v) of Finite y \<Rightarrow> Inr y | _ \<Rightarrow> Inl OverflowError)"

definition float_ok :: "int \<Rightarrow> bool" where
  "float_ok v = (\<bar>r64 (real_of_int v)\<bar> < 2 ^ 1024)"

text \<open>Addition of two floats, and division of a finite float by a float.\<close>

fun fadd :: "fval \<Rightarrow> fval \<Rightarrow> fval" where
  "fadd (Finite a) (Finite b) = fl (a + b)"
| "fadd NaN _ = NaN"
| "fadd _ NaN = NaN"
| "fadd PosInf NegInf = NaN"
| "fadd NegInf PosInf = NaN"
| "fadd PosInf _ = PosInf"
| "fadd _ PosInf = PosInf"
| "fadd NegInf _ = NegInf"
| "fadd _ NegInf = NegInf"

fun fdiv :: "real \<Rightarrow> fval \<Rightarrow> fval" where
  "fdiv x (Finite s) =
     (if s = 0 then (if x = 0 then NaN else if 0 < x then PosInf else NegInf)
      else fl (x / s))"
| "fdiv x PosInf = Finite 0"
| "fdiv x NegInf = Finite 0"
| "fdiv x NaN = NaN"

text \<open>
  \<^verbatim>\<open>np.sum\<close> adds the elements of a row two sums at a time, rounding every addition, in
  an order of numpy's choosing (it adds in blocks and pairs and not from left to right).
  The order for rows of a given length is a parameter: a tree of additions over the
  positions of the row, each position once. The sum of no element is zero.
\<close>

datatype sum_order = Elem nat | Plus sum_order sum_order

fun elems :: "sum_order \<Rightarrow> nat list" where
  "elems (Elem i) = [i]"
| "elems (Plus a b) = elems a @ elems b"

fun fsum :: "sum_order \<Rightarrow> real list \<Rightarrow> fval" where
  "fsum (Elem i) xs = Finite (xs ! i)"
| "fsum (Plus a b) xs = fadd (fsum a xs) (fsum b xs)"

definition valid_order :: "(nat \<Rightarrow> sum_order) \<Rightarrow> bool" where
  "valid_order ord = (\<forall>n>0. sort (elems (ord n)) = [0..<n])"

definition np_sum :: "(nat \<Rightarrow> sum_order) \<Rightarrow> real list \<Rightarrow> fval" where
  "np_sum ord xs = (if xs = [] then Finite 0 else fsum (ord (length xs)) xs)"

text \<open>One such order, from left to right.\<close>

fun seq_order :: "nat \<Rightarrow> sum_order" where
  "seq_order 0 = Elem 0"
| "seq_order (Suc 0) = Elem 0"
| "seq_order (Suc (Suc n)) = Plus (seq_order (Suc n)) (Elem (Suc n))"

section \<open>The table formatter\<close>

text \<open>
  The builtin \<^verbatim>\<open>sorted\<close>: ascending and stable, by \<^verbatim>\<open><\<close>. Python 3 orders
  integers with integers and strings with strings; \<^verbatim>\<open><\<close> between an integer and a
  string raises \<^verbatim>\<open>TypeError\<close>, and no list holding both can be sorted without such a
  comparison.
\<close>

fun py_less :: "pyval \<Rightarrow> pyval \<Rightarrow> bool" where
  "py_less (PInt a) (PInt b) = (a < b)"
| "py_less (PStr a) (PStr b) = (a < b)"
| "py_less _ _ = False"

definition sorted_py :: "pyval list \<Rightarrow> error + pyval list" where
  "sorted_py xs =
     (if list_all is_PInt xs then Inr (map PInt (sort (map the_int xs)))
      else if list_all is_PStr xs then Inr (map PStr (sort (map the_str xs)))
      else Inl TypeError)"

text \<open>\<^verbatim>\<open>list.index(x)\<close>: the first position of \<open>x\<close>, or \<^verbatim>\<open>ValueError\<close>.\<close>

fun index_py :: "'a list \<Rightarrow> 'a \<Rightarrow> error + nat" where
  "index_py [] x = Inl ValueError"
| "index_py (y # ys) x =
     (if y = x then Inr 0
      else (case index_py ys x of Inl e \<Rightarrow> Inl e | Inr i \<Rightarrow> Inr (Suc i)))"

text \<open>
  \<^verbatim>\<open>set.update(keys)\<close>, a set being the list of its distinct elements; the order is
  of no account, since the set is only ever sorted.
\<close>

definition set_update :: "'a list \<Rightarrow> 'a list \<Rightarrow> 'a list" where
  "set_update s ks = fold List.insert ks s"

text \<open>
  \<^verbatim>\<open>np.zeros((r, c))\<close>: a matrix is the list of its rows, and its cells are finite
  floats.
\<close>

definition zeros :: "nat \<Rightarrow> nat \<Rightarrow> real list list" where
  "zeros r c = replicate r (replicate c 0)"

text \<open>
  The inner loop of \<^verbatim>\<open>dictsToTbl\<close>, \<^verbatim>\<open>for cn, v in row.items()\<close>, storing into row
  \<open>ri\<close> of the matrix, and the outer loop \<^verbatim>\<open>for rn, row in dd.items()\<close>. The indices
  stored at come from \<^verbatim>\<open>index\<close> on the label lists that size the matrix; the
  assignment \<^verbatim>\<open>ret[ri,ci] = v\<close> converts the count to a float.
\<close>

fun fill_row :: "pyval list \<Rightarrow> nat \<Rightarrow> row \<Rightarrow> real list list \<Rightarrow> error + real list list" where
  "fill_row colNames ri [] ret = Inr ret"
| "fill_row colNames ri ((cn, v) # items) ret =
     (case index_py colNames cn of
        Inl e \<Rightarrow> Inl e
      | Inr ci \<Rightarrow>
          (case float_of_int v of
             Inl e \<Rightarrow> Inl e
           | Inr y \<Rightarrow> fill_row colNames ri items (ret[ri := (ret ! ri)[ci := y]])))"

fun fill_tbl ::
  "pyval list \<Rightarrow> pyval list \<Rightarrow> accumulator \<Rightarrow> real list list \<Rightarrow> error + real list list"
where
  "fill_tbl rowNames colNames [] ret = Inr ret"
| "fill_tbl rowNames colNames ((rn, r) # items) ret =
     (case index_py rowNames rn of
        Inl e \<Rightarrow> Inl e
      | Inr ri \<Rightarrow>
          (case fill_row colNames ri r ret of
             Inl e \<Rightarrow> Inl e
           | Inr ret' \<Rightarrow> fill_tbl rowNames colNames items ret'))"

definition dictsToTbl :: "accumulator \<Rightarrow> error + (real list list \<times> pyval list \<times> pyval list)" where
  "dictsToTbl dd =
     (case sorted_py (map fst dd) of
        Inl e \<Rightarrow> Inl e
      | Inr rowNames \<Rightarrow>
          (case sorted_py (fold (\<lambda>r colNames. set_update colNames (map fst r)) (map snd dd) []) of
             Inl e \<Rightarrow> Inl e
           | Inr colNames \<Rightarrow>
               (case fill_tbl rowNames colNames dd (zeros (length rowNames) (length colNames)) of
                  Inl e \<Rightarrow> Inl e
                | Inr ret \<Rightarrow> Inr (ret, rowNames, colNames))))"

text \<open>
  \<^verbatim>\<open>norm(ar)\<close> is \<^verbatim>\<open>ar / np.sum(ar, axis=1, keepdims=True)\<close>: every cell divided, in
  floats, by the float sum of its row. Where that sum is zero numpy warns and stores
  \<^verbatim>\<open>nan\<close> or an infinity.
\<close>

definition norm_tbl :: "(nat \<Rightarrow> sum_order) \<Rightarrow> real list list \<Rightarrow> fval list list" where
  "norm_tbl ord ar = map (\<lambda>r. map (\<lambda>x. fdiv x (np_sum ord r)) r) ar"

text \<open>
  A well-formed dictionary of dictionaries has no key twice, at either level. The labels
  of a table can be sorted when they are all integers or all strings.
\<close>

definition wf_acc :: "accumulator \<Rightarrow> bool" where
  "wf_acc dd = (distinct (map fst dd) \<and> list_all (\<lambda>(k, r). distinct (map fst r)) dd)"

definition comparable :: "pyval list \<Rightarrow> bool" where
  "comparable xs = (list_all is_PInt xs \<or> list_all is_PStr xs)"

definition col_keys :: "accumulator \<Rightarrow> pyval list" where
  "col_keys dd = concat (map (\<lambda>(k, r). map fst r) dd)"

definition counts_ok :: "accumulator \<Rightarrow> bool" where
  "counts_ok dd = list_all (\<lambda>(k, r). list_all (\<lambda>(n, c). float_ok c) r) dd"

section \<open>Dice\<close>

lemma randint_range:
  assumes "a \<le> b"
  shows "\<exists>n. randint a b g = (Inr n, snd (next_raw g)) \<and> a \<le> n \<and> n \<le> b"
proof -
  obtain r g' where nr: "next_raw g = (r, g')" by (cases "next_raw g")
  have pos: "0 < nat (b - a + 1)" using assms by simp
  have "r mod nat (b - a + 1) < nat (b - a + 1)" using pos by (rule mod_less_divisor)
  then have "int (r mod nat (b - a + 1)) \<le> b - a" using assms by linarith
  then show ?thesis using assms nr by (simp add: randint_def)
qed

text \<open>
  C5: for every positive integer \<open>N\<close>, \<^verbatim>\<open>Die(N).draw()\<close> returns (it does not raise) an
  integer between 1 and \<open>N\<close>, whatever the state of the generator.
\<close>

theorem Die_draw_range:
  assumes "1 \<le> N"
  shows "\<exists>n g'. draw (Die_init N None) g = (Inr (PInt n), g') \<and> 1 \<le> n \<and> n \<le> N"
proof -
  obtain n where "randint 1 N g = (Inr n, snd (next_raw g))" and "1 \<le> n" and "n \<le> N"
    using randint_range [OF assms, of g] by blast
  then show ?thesis by (simp add: Die_init_def)
qed

theorem Die_draw_range_witness:
  "(1::int) \<le> 6 \<and>
   (\<exists>n g'. draw (Die_init 6 None) \<lparr>tape = Suc, pos = 0\<rparr> = (Inr (PInt n), g') \<and> 1 \<le> n \<and> n \<le> 6)"
  using Die_draw_range [of 6 "\<lparr>tape = Suc, pos = 0\<rparr>"] by simp

section \<open>The accumulator\<close>

lemma map_of_dict_set: "map_of (dict_set d k v) = (map_of d)(k \<mapsto> v)"
  by (simp add: dict_set_def update_conv')

lemma Trial_add_lookup:
  "map_of (if map_of acc r = None then dict_set acc r [] else acc) r \<noteq> None"
  by (simp add: map_of_dict_set)

lemma Trial_add_eq:
  "Trial_add nm r acc =
     dict_set acc r (dict_set (dict_get acc r []) nm (dict_get (dict_get acc r []) nm 0 + 1))"
  by (cases "map_of acc r") (simp_all add: Trial_add_def Let_def dict_get_def dict_set_def update_conv')

lemma set_update_subset: "set (AList.update k v al) \<subseteq> insert (k, v) (set al)"
  by (induction al) auto

lemma sum_list_update:
  fixes f :: "'v \<Rightarrow> int"
  shows "sum_list (map (\<lambda>(k, v). f v) (AList.update k0 v0 al)) =
         sum_list (map (\<lambda>(k, v). f v) al) - (case map_of al k0 of None \<Rightarrow> 0 | Some v \<Rightarrow> f v) + f v0"
  by (induction al) auto

lemma sum_snd_update:
  "sum_list (map snd (AList.update k0 v0 al)) =
   sum_list (map snd al) - dict_get al k0 0 + (v0 :: int)"
  using sum_list_update [of "\<lambda>v. v" k0 v0 al]
  by (simp add: dict_get_def case_prod_unfold split: option.splits)

lemma row_total_Trial_add:
  "row_total (Trial_add nm r acc) r' = row_total acc r' + (if r' = r then 1 else 0)"
  by (simp add: row_total_def Trial_add_eq dict_get_def map_of_dict_set)
     (simp add: dict_set_def sum_snd_update dict_get_def)

lemma grand_total_Trial_add: "grand_total (Trial_add nm r acc) = grand_total acc + 1"
proof -
  let ?row = "dict_get acc r []"
  let ?row' = "dict_set ?row nm (dict_get ?row nm 0 + 1)"
  have "grand_total (Trial_add nm r acc) =
        grand_total acc - (case map_of acc r of None \<Rightarrow> 0 | Some v \<Rightarrow> sum_list (map snd v))
          + sum_list (map snd ?row')"
    unfolding grand_total_def Trial_add_eq dict_set_def
    by (rule sum_list_update)
  also have "sum_list (map snd ?row') = sum_list (map snd ?row) + 1"
    by (simp add: dict_set_def sum_snd_update)
  also have "(case map_of acc r of None \<Rightarrow> 0 | Some v \<Rightarrow> sum_list (map snd v)) = sum_list (map snd ?row)"
    by (simp add: dict_get_def split: option.splits)
  finally show ?thesis by simp
qed

lemma cell_Trial_add:
  "cell (Trial_add nm r acc) r' nm' = cell acc r' nm' + (if r' = r \<and> nm' = nm then 1 else 0)"
  by (simp add: cell_def Trial_add_eq dict_get_def map_of_dict_set)

lemma wf_acc_Trial_add: "wf_acc acc \<Longrightarrow> wf_acc (Trial_add nm r acc)"
proof -
  assume wf: "wf_acc acc"
  let ?row = "dict_get acc r []"
  have drow: "distinct (map fst ?row)"
  proof (cases "map_of acc r")
    case None
    then show ?thesis by (simp add: dict_get_def)
  next
    case (Some x)
    then have "(r, x) \<in> set acc" by (rule map_of_SomeD)
    with wf Some show ?thesis by (auto simp: wf_acc_def dict_get_def list_all_iff)
  qed
  have "distinct (map fst (Trial_add nm r acc))"
    using wf by (simp add: Trial_add_eq dict_set_def wf_acc_def distinct_update)
  moreover have "list_all (\<lambda>(k, r). distinct (map fst r)) (Trial_add nm r acc)"
    unfolding list_all_iff
  proof
    fix p assume "p \<in> set (Trial_add nm r acc)"
    then have "p = (r, dict_set ?row nm (dict_get ?row nm 0 + 1)) \<or> p \<in> set acc"
      using set_update_subset unfolding Trial_add_eq dict_set_def by fastforce
    then show "case p of (k, r) \<Rightarrow> distinct (map fst r)"
      using wf drow by (auto simp: wf_acc_def list_all_iff dict_set_def distinct_update)
  qed
  ultimately show ?thesis by (simp add: wf_acc_def)
qed


lemma Trial_add_entries:
  assumes "p \<in> set (Trial_add nm r acc)"
  shows "p = (r, dict_set (dict_get acc r []) nm (dict_get (dict_get acc r []) nm 0 + 1))
         \<or> p \<in> set acc"
  using assms set_update_subset unfolding Trial_add_eq dict_set_def by fastforce

lemma dict_get_row_mem:
  "dict_get acc r [] = [] \<or> (r, dict_get acc r []) \<in> set acc"
  by (cases "map_of acc r") (auto simp: dict_get_def dest: map_of_SomeD)

lemma dict_get_count_mem:
  "dict_get row nm 0 = (0::int) \<or> (nm, dict_get row nm 0) \<in> set row"
  by (cases "map_of row nm") (auto simp: dict_get_def dest: map_of_SomeD)

lemma counts_ge_Trial_add:
  assumes "m \<le> 1" and inv: "counts_ge m acc"
  shows "counts_ge m (Trial_add nm r acc)"
proof -
  let ?row = "dict_get acc r []"
  let ?c = "dict_get ?row nm 0"
  have prow: "list_all (\<lambda>(n, c). m \<le> c) ?row"
    using dict_get_row_mem [of acc r] inv by (auto simp: counts_ge_def list_all_iff)
  have c0: "m \<le> ?c + 1"
    using dict_get_count_mem [of ?row nm] prow assms(1) by (auto simp: list_all_iff)
  have new: "list_all (\<lambda>(n, c). m \<le> c) (dict_set ?row nm (?c + 1))"
    unfolding list_all_iff
  proof
    fix p assume "p \<in> set (dict_set ?row nm (?c + 1))"
    then have "p = (nm, ?c + 1) \<or> p \<in> set ?row"
      using set_update_subset unfolding dict_set_def by fastforce
    then show "case p of (n, c) \<Rightarrow> m \<le> c"
      using prow c0 by (auto simp: list_all_iff)
  qed
  show ?thesis
    unfolding counts_ge_def list_all_iff
  proof
    fix p assume "p \<in> set (Trial_add nm r acc)"
    from Trial_add_entries [OF this]
    show "case p of (k, r) \<Rightarrow> \<forall>x\<in>set r. case x of (n, c) \<Rightarrow> m \<le> c"
      using inv new by (auto simp: counts_ge_def list_all_iff)
  qed
qed

lemma rows_nonempty_Trial_add:
  assumes "rows_nonempty acc"
  shows "rows_nonempty (Trial_add nm r acc)"
  unfolding rows_nonempty_def list_all_iff
proof
  fix p assume "p \<in> set (Trial_add nm r acc)"
  from Trial_add_entries [OF this]
  have "p = (r, dict_set (dict_get acc r []) nm (dict_get (dict_get acc r []) nm 0 + 1))
         \<or> p \<in> set acc" .
  moreover have "dict_set (dict_get acc r []) nm (dict_get (dict_get acc r []) nm 0 + 1) \<noteq> []"
    by (simp add: dict_set_def)
  ultimately show "case p of (k, r) \<Rightarrow> r \<noteq> []"
    using assms by (auto simp: rows_nonempty_def list_all_iff)
qed

lemma add_all_Cons: "add_all ((nm, r) # ps) acc = add_all ps (Trial_add nm r acc)"
  by (simp add: add_all_def)

lemma add_all_Nil: "add_all [] acc = acc"
  by (simp add: add_all_def)

lemma grand_total_add_all: "grand_total (add_all ps acc) = grand_total acc + int (length ps)"
  by (induction ps arbitrary: acc) (auto simp: add_all_Nil add_all_Cons grand_total_Trial_add)

lemma counts_ge_add_all: "m \<le> 1 \<Longrightarrow> counts_ge m acc \<Longrightarrow> counts_ge m (add_all ps acc)"
  by (induction ps arbitrary: acc) (auto simp: add_all_Nil add_all_Cons counts_ge_Trial_add)

lemma rows_nonempty_add_all: "rows_nonempty acc \<Longrightarrow> rows_nonempty (add_all ps acc)"
  by (induction ps arbitrary: acc) (auto simp: add_all_Nil add_all_Cons rows_nonempty_Trial_add)

lemma wf_acc_add_all: "wf_acc acc \<Longrightarrow> wf_acc (add_all ps acc)"
  by (induction ps arbitrary: acc) (auto simp: add_all_Nil add_all_Cons wf_acc_Trial_add)

lemma row_total_add_all:
  "row_total (add_all ps acc) r = row_total acc r + int (length (filter (\<lambda>(nm, x). x = r) ps))"
  by (induction ps arbitrary: acc) (auto simp: add_all_Nil add_all_Cons row_total_Trial_add)

lemma cell_add_all:
  "cell (add_all ps acc) r nm = cell acc r nm + int (length (filter (\<lambda>p. p = (nm, r)) ps))"
  by (induction ps arbitrary: acc) (auto simp: add_all_Nil add_all_Cons cell_Trial_add split: if_splits)

lemma run_loop_results:
  "results (fst (snd (run_loop n t g))) = add_all (run_log n t g) (results t)"
proof (induction n arbitrary: t g)
  case 0
  show ?case by (simp add: add_all_Nil)
next
  case (Suc n)
  show ?case
    by (simp add: add_all_Nil add_all_Cons Suc.IH split: prod.splits sum.splits)
qed

lemma run_loop_sources: "sources (fst (snd (run_loop n t g))) = sources t"
proof (induction n arbitrary: t g)
  case 0
  show ?case by simp
next
  case (Suc n)
  show ?case by (simp add: Suc.IH split: prod.splits sum.splits)
qed

lemma run_loop_length:
  "fst (run_loop n t g) = Inr () \<Longrightarrow> length (run_log n t g) = n"
proof (induction n arbitrary: t g)
  case 0
  show ?case by simp
next
  case (Suc n)
  then show ?case by (auto split: prod.splits sum.splits)
qed

lemma run_log_length: "length (run_log n t g) \<le> n"
proof (induction n arbitrary: t g)
  case 0
  show ?case by simp
next
  case (Suc n)
  show ?case by (auto split: prod.splits sum.splits simp: Suc.IH)
qed

lemma rng_adv_refl: "rng_adv g g"
  by (simp add: rng_adv_def)

lemma rng_adv_trans: "rng_adv g g1 \<Longrightarrow> rng_adv g1 g2 \<Longrightarrow> rng_adv g g2"
  by (simp add: rng_adv_def)

lemma randint_adv: "rng_adv g (snd (randint a b g))"
  by (simp add: randint_def rng_adv_def next_raw_def)

lemma uniform_adv: "rng_adv g (snd (uniform a b g))"
  by (simp add: uniform_def random_unit_def rng_adv_def next_raw_def)

lemma choice_adv: "rng_adv g (snd (choice xs g))"
  by (simp add: choice_def rng_adv_def next_raw_def)

lemma count_loop_adv:
  assumes "\<And>h. rng_adv h (snd (d h))"
  shows "rng_adv g (snd (count_loop d v n t g))"
proof (induction n arbitrary: t g)
  case 0
  show ?case by (simp add: rng_adv_refl)
next
  case (Suc n)
  obtain y g1 where d: "d g = (y, g1)" by (cases "d g")
  then have a: "rng_adv g g1" using assms [of g] by simp
  show ?case
  proof (cases y)
    case (Inl e)
    with d a show ?thesis by simp
  next
    case (Inr x)
    with d have "count_loop d v (Suc n) t g = count_loop d v n (if x = v then t + 1 else t) g1"
      by simp
    moreover have "rng_adv g1 (snd (count_loop d v n (if x = v then t + 1 else t) g1))"
      by (rule Suc.IH)
    ultimately show ?thesis using a by (metis rng_adv_trans)
  qed
qed

lemma draw_adv: "rng_adv g (snd (draw s g))"
proof (induction s arbitrary: g)
  case (Die s nm)
  obtain y g' where r: "randint 1 s g = (y, g')" by (cases "randint 1 s g")
  then have "rng_adv g g'" using randint_adv [of g 1 s] by simp
  then show ?case using r by (cases y) simp_all
next
  case (Coin b nm)
  obtain u g' where r: "uniform (- 1) 1 g = (u, g')" by (cases "uniform (- 1) 1 g")
  then have "rng_adv g g'" using uniform_adv [of g "- 1" 1] by simp
  then show ?case using r by simp
next
  case (Counter s v k nm)
  show ?case by (simp add: count_loop_adv Counter.IH)
qed

lemma run_loop_adv: "rng_adv g (snd (snd (run_loop n t g)))"
proof (induction n arbitrary: t g)
  case 0
  show ?case by (simp add: rng_adv_refl)
next
  case (Suc n)
  obtain y g1 where c: "chooseSource t g = (y, g1)" by (cases "chooseSource t g")
  then have a: "rng_adv g g1" using choice_adv [of g "sources t"] by (simp add: chooseSource_def)
  show ?case
  proof (cases y)
    case (Inl e)
    with c a show ?thesis by simp
  next
    case (Inr src)
    obtain z g2 where d: "draw src g1 = (z, g2)" by (cases "draw src g1")
    then have b: "rng_adv g1 g2" using draw_adv [of g1 src] by simp
    show ?thesis
    proof (cases z)
      case (Inl e)
      with c d Inr a b show ?thesis by (simp add: rng_adv_trans [OF a b])
    next
      case inr: (Inr r)
      have "rng_adv g2 (snd (snd (run_loop n (t\<lparr>results := Trial_add (name src) r (results t)\<rparr>) g2)))"
        by (rule Suc.IH)
      with a b have "rng_adv g (snd (snd (run_loop n (t\<lparr>results := Trial_add (name src) r (results t)\<rparr>) g2)))"
        by (metis rng_adv_trans)
      with c d Inr inr show ?thesis by simp
    qed
  qed
qed

lemma chooseSource_pos:
  "chooseSource t g = (Inr src, g1) \<Longrightarrow> pos g < pos g1"
  by (auto simp: chooseSource_def choice_def next_raw_def split: if_splits)

section \<open>Coins and counters\<close>

lemma random_unit_range: "0 \<le> fst (random_unit g) \<and> fst (random_unit g) < 1"
proof -
  have "tape g (pos g) mod 2 ^ 53 < (2::nat) ^ 53" by simp
  then have "real (tape g (pos g) mod 2 ^ 53) < 2 ^ 53"
    by (metis of_nat_less_iff of_nat_numeral of_nat_power)
  then show ?thesis by (simp add: random_unit_def next_raw_def)
qed

lemma uniform_unit: "fst (uniform (- 1) 1 g) = 2 * fst (random_unit g) - 1"
  by (simp add: uniform_def split: prod.splits)

lemma draw_Coin:
  "fst (draw (Coin_init fmt b) g) =
     Inr (PStr (if fst (uniform (- 1) 1 g) < b then ''Heads'' else ''Tails''))"
  by (simp add: Coin_init_def split: prod.splits)

lemma count_loop_bounds:
  "count_loop d v n t g = (Inr x, g') \<Longrightarrow> \<exists>c. x = PInt c \<and> t \<le> c \<and> c \<le> t + int n"
proof (induction n arbitrary: t g)
  case 0
  then show ?case by auto
next
  case (Suc n)
  obtain y g1 where d: "d g = (y, g1)" by (cases "d g")
  show ?case
  proof (cases y)
    case (Inl e)
    with Suc.prems d show ?thesis by simp
  next
    case (Inr z)
    with Suc.prems d
    have "count_loop d v n (if z = v then t + 1 else t) g1 = (Inr x, g')" by simp
    from Suc.IH [OF this] show ?thesis by (auto split: if_splits)
  qed
qed

lemma count_loop_returns:
  assumes "\<forall>h. \<exists>x h'. d h = (Inr x, h')"
  shows "\<exists>x g'. count_loop d v n t g = (Inr x, g')"
proof (induction n arbitrary: t g)
  case 0
  then show ?case by simp
next
  case (Suc n)
  obtain z g1 where d: "d g = (Inr z, g1)" using assms by blast
  show ?case using Suc.IH [of "if z = v then t + 1 else t" g1] d by simp
qed

lemma count_loop_all:
  assumes "\<forall>h. \<exists>h'. d h = (Inr v, h')"
  shows "\<exists>g'. count_loop d v n t g = (Inr (PInt (t + int n)), g')"
proof (induction n arbitrary: t g)
  case 0
  then show ?case by simp
next
  case (Suc n)
  obtain g1 where d: "d g = (Inr v, g1)" using assms by blast
  show ?case using Suc.IH [of "t + 1" g1] d by (simp add: add.assoc)
qed

text \<open>
  C7: for a non-negative \<open>k\<close>, a \<^verbatim>\<open>Counter(source, v, k).draw()\<close> that returns, returns
  an integer between 0 and \<open>k\<close>; it returns whenever the draws of the wrapped source
  do; and when every draw of the wrapped source yields \<open>v\<close> it returns exactly \<open>k\<close>.
\<close>

theorem Counter_draw_range:
  assumes "0 \<le> k"
  shows "(\<forall>x g'. draw (Counter_init src v k) g = (Inr x, g') \<longrightarrow>
            (\<exists>c. x = PInt c \<and> 0 \<le> c \<and> c \<le> k))
       \<and> ((\<forall>h. \<exists>x h'. draw src h = (Inr x, h')) \<longrightarrow>
            (\<exists>c g'. draw (Counter_init src v k) g = (Inr (PInt c), g') \<and> 0 \<le> c \<and> c \<le> k))
       \<and> ((\<forall>h. \<exists>h'. draw src h = (Inr v, h')) \<longrightarrow>
            (\<exists>g'. draw (Counter_init src v k) g = (Inr (PInt k), g')))"
proof (intro conjI allI impI)
  fix x g'
  assume "draw (Counter_init src v k) g = (Inr x, g')"
  then have "count_loop (draw src) v (nat k) 0 g = (Inr x, g')"
    by (simp add: Counter_init_def)
  from count_loop_bounds [OF this] show "\<exists>c. x = PInt c \<and> 0 \<le> c \<and> c \<le> k"
    using assms by auto
next
  assume "\<forall>h. \<exists>x h'. draw src h = (Inr x, h')"
  from count_loop_returns [OF this, of v "nat k" 0 g]
  obtain x g' where r: "count_loop (draw src) v (nat k) 0 g = (Inr x, g')" by blast
  from count_loop_bounds [OF r] obtain c where "x = PInt c" "0 \<le> c" "c \<le> k"
    using assms by auto
  with r show "\<exists>c g'. draw (Counter_init src v k) g = (Inr (PInt c), g') \<and> 0 \<le> c \<and> c \<le> k"
    by (auto simp: Counter_init_def)
next
  assume "\<forall>h. \<exists>h'. draw src h = (Inr v, h')"
  from count_loop_all [OF this, of "nat k" 0 g]
  show "\<exists>g'. draw (Counter_init src v k) g = (Inr (PInt k), g')"
    using assms by (simp add: Counter_init_def)
qed

lemma draw_Die_one: "draw (Die_init 1 None) h = (Inr (PInt 1), snd (next_raw h))"
  by (simp add: Die_init_def randint_def split: prod.splits)

theorem Counter_draw_range_witness:
  "(0::int) \<le> 3
   \<and> (\<forall>h. \<exists>h'. draw (Die_init 1 None) h = (Inr (PInt 1), h'))
   \<and> (\<exists>g'. draw (Counter_init (Die_init 1 None) (PInt 1) 3) \<lparr>tape = Suc, pos = 0\<rparr>
              = (Inr (PInt 3), g'))"
proof -
  have h: "\<forall>h. \<exists>h'. draw (Die_init 1 None) h = (Inr (PInt 1), h')"
    using draw_Die_one by blast
  show ?thesis
    using h Counter_draw_range [of 3 "Die_init 1 None" "PInt 1" "\<lparr>tape = Suc, pos = 0\<rparr>"]
    by simp
qed

section \<open>Runs\<close>

text \<open>
  C1: a run of \<open>n \<ge> 0\<close> draws keeps every count of the accumulator non-negative and
  adds to the sum of all counts the number of iterations it performs, which is \<open>n\<close>
  when the run does not raise; \<^verbatim>\<open>run(0)\<close> on a fresh trial returns with the
  accumulator empty.
\<close>

theorem run_counts:
  assumes "run n t g = (res, t', g')" and "0 \<le> n" and "counts_ge 0 (results t)"
  shows "counts_ge 0 (results t')
       \<and> grand_total (results t') = grand_total (results t) + int (length (run_log (nat n) t g))
       \<and> length (run_log (nat n) t g) \<le> nat n
       \<and> (res = Inr () \<longrightarrow> grand_total (results t') = grand_total (results t) + n)
       \<and> run 0 (UniformSelectionTrial_init srcs) h = (Inr (), UniformSelectionTrial_init srcs, h)
       \<and> results (UniformSelectionTrial_init srcs) = []"
proof -
  have r: "results t' = add_all (run_log (nat n) t g) (results t)"
    using assms(1) run_loop_results [of "nat n" t g] by (simp add: run_def)
  have a: "counts_ge 0 (results t')"
    unfolding r using assms(3) by (simp add: counts_ge_add_all)
  have b: "grand_total (results t') =
           grand_total (results t) + int (length (run_log (nat n) t g))"
    unfolding r by (rule grand_total_add_all)
  have c: "res = Inr () \<longrightarrow> grand_total (results t') = grand_total (results t) + n"
  proof
    assume "res = Inr ()"
    then have "fst (run_loop (nat n) t g) = Inr ()" using assms(1) by (simp add: run_def)
    then have "length (run_log (nat n) t g) = nat n" by (rule run_loop_length)
    with b assms(2) show "grand_total (results t') = grand_total (results t) + n" by simp
  qed
  show ?thesis
    using a b c run_log_length [of "nat n" t g]
    by (simp add: run_def UniformSelectionTrial_init_def)
qed

theorem run_counts_witness:
  "(0::int) \<le> 4
   \<and> counts_ge 0 (results (UniformSelectionTrial_init [Die_init 2 None, Die_init 3 None]))
   \<and> fst (run 4 (UniformSelectionTrial_init [Die_init 2 None, Die_init 3 None])
            \<lparr>tape = Suc, pos = 0\<rparr>) = Inr ()
   \<and> counts_ge 0 (results (fst (snd (run 4 (UniformSelectionTrial_init [Die_init 2 None, Die_init 3 None])
            \<lparr>tape = Suc, pos = 0\<rparr>))))
   \<and> grand_total (results (fst (snd (run 4 (UniformSelectionTrial_init [Die_init 2 None, Die_init 3 None])
            \<lparr>tape = Suc, pos = 0\<rparr>)))) = 4"
proof -
  let ?t = "UniformSelectionTrial_init [Die_init 2 None, Die_init 3 None]"
  let ?g = "\<lparr>tape = Suc, pos = 0\<rparr>"
  have h1: "counts_ge 0 (results ?t)" by code_simp
  have h2: "fst (run 4 ?t ?g) = Inr ()" by code_simp
  have h3: "grand_total (results ?t) = 0" by code_simp
  have e: "run 4 ?t ?g = (fst (run 4 ?t ?g), fst (snd (run 4 ?t ?g)), snd (snd (run 4 ?t ?g)))"
    by simp
  have h0: "(0::int) \<le> 4" by simp
  have "counts_ge 0 (results (fst (snd (run 4 ?t ?g))))
      \<and> (fst (run 4 ?t ?g) = Inr () \<longrightarrow>
           grand_total (results (fst (snd (run 4 ?t ?g)))) = grand_total (results ?t) + 4)"
    using run_counts [OF e h0 h1] by blast
  with h2 h3 have "counts_ge 0 (results (fst (snd (run 4 ?t ?g))))
      \<and> grand_total (results (fst (snd (run 4 ?t ?g)))) = 4"
    by simp
  with h0 h1 h2 show ?thesis by blast
qed

text \<open>
  C8: the name of a \<^verbatim>\<open>Counter\<close> is the name of the source it wraps. Two counters over
  sources of the same name are recorded by \<^verbatim>\<open>_add\<close> alike, and their draws add up
  in the cells of that one name.
\<close>

theorem Counter_name:
  "name (Counter_init src v k) = name src
   \<and> (name a = name b \<longrightarrow>
        Trial_add (name (Counter_init a va ka)) r acc =
        Trial_add (name (Counter_init b vb kb)) r acc
      \<and> cell (Trial_add (name (Counter_init b vb kb)) rb
                (Trial_add (name (Counter_init a va ka)) ra acc)) r (name a) =
        cell acc r (name a) + (if r = ra then 1 else 0) + (if r = rb then 1 else 0))"
  by (simp add: Counter_init_def cell_Trial_add)

theorem Counter_name_witness:
  "name (Die_init 6 (Some (PStr ''d''))) = name (Die_init 8 (Some (PStr ''d'')))
   \<and> cell (Trial_add (name (Counter_init (Die_init 8 (Some (PStr ''d''))) (PInt 1) 5)) (PInt 2)
            (Trial_add (name (Counter_init (Die_init 6 (Some (PStr ''d''))) (PInt 6) 3)) (PInt 2) []))
          (PInt 2) (name (Die_init 6 (Some (PStr ''d'')))) = 2"
proof -
  let ?a = "Die_init 6 (Some (PStr ''d''))"
  let ?b = "Die_init 8 (Some (PStr ''d''))"
  have h: "name ?a = name ?b"
    by (simp add: Die_init_def)
  have z: "cell [] (PInt 2) (name ?a) = 0"
    by (simp add: cell_def dict_get_def)
  have "cell (Trial_add (name (Counter_init ?b (PInt 1) 5)) (PInt 2)
            (Trial_add (name (Counter_init ?a (PInt 6) 3)) (PInt 2) []))
          (PInt 2) (name ?a) =
        cell [] (PInt 2) (name ?a)
          + (if PInt 2 = PInt 2 then 1 else 0) + (if PInt 2 = PInt 2 then 1 else 0)"
    using h Counter_name [where a = ?a and b = ?b and va = "PInt 6" and ka = 3
        and vb = "PInt 1" and kb = 5 and ra = "PInt 2" and rb = "PInt 2" and r = "PInt 2"
        and acc = "[]"]
    by blast
  with z have "cell (Trial_add (name (Counter_init ?b (PInt 1) 5)) (PInt 2)
            (Trial_add (name (Counter_init ?a (PInt 6) 3)) (PInt 2) []))
          (PInt 2) (name ?a) = 2"
    by simp
  with h show ?thesis by blast
qed

lemma run_loop_pos:
  "fst (run_loop (Suc m) t g) = Inr () \<Longrightarrow> pos g < pos (snd (snd (run_loop (Suc m) t g)))"
proof -
  assume ok: "fst (run_loop (Suc m) t g) = Inr ()"
  obtain y g1 where c: "chooseSource t g = (y, g1)" by (cases "chooseSource t g")
  show ?thesis
  proof (cases y)
    case (Inl e)
    with c ok show ?thesis by simp
  next
    case (Inr src)
    with c have p1: "pos g < pos g1" by (simp add: chooseSource_pos)
    obtain z g2 where d: "draw src g1 = (z, g2)" by (cases "draw src g1")
    then have p2: "pos g1 \<le> pos g2" using draw_adv [of g1 src] by (simp add: rng_adv_def)
    show ?thesis
    proof (cases z)
      case (Inl e)
      with c d Inr ok show ?thesis by simp
    next
      case inr: (Inr r)
      have "pos g2 \<le> pos (snd (snd (run_loop m (t\<lparr>results := Trial_add (name src) r (results t)\<rparr>) g2)))"
        using run_loop_adv [of g2 m] by (simp add: rng_adv_def)
      with c d Inr inr p1 p2 show ?thesis by simp
    qed
  qed
qed

section \<open>The labels of a table\<close>

subsection \<open>Sorting the labels\<close>

lemma map_PInt_the_int: "list_all is_PInt xs \<Longrightarrow> map PInt (map the_int xs) = xs"
  by (induction xs) auto

lemma map_PStr_the_str: "list_all is_PStr xs \<Longrightarrow> map PStr (map the_str xs) = xs"
  by (induction xs) auto

lemma sorted_wrt_py_less_PInt: "sorted_wrt py_less (map PInt zs) = sorted_wrt (<) zs"
  by (simp add: sorted_wrt_map)

lemma sorted_wrt_py_less_PStr: "sorted_wrt py_less (map PStr zs) = sorted_wrt (<) zs"
  by (simp add: sorted_wrt_map)

lemma sorted_py_returns: "comparable xs \<Longrightarrow> \<exists>ys. sorted_py xs = Inr ys"
  by (auto simp: comparable_def sorted_py_def)

lemma sorted_py_raises: "\<not> comparable xs \<Longrightarrow> sorted_py xs = Inl TypeError"
  by (auto simp: comparable_def sorted_py_def)

lemma sorted_py_set:
  assumes "sorted_py xs = Inr ys"
  shows "set ys = set xs" and "length ys = length xs"
proof -
  have "set ys = set xs \<and> length ys = length xs"
  proof (cases "list_all is_PInt xs")
    case True
    then have "ys = map PInt (sort (map the_int xs))" using assms by (simp add: sorted_py_def)
    then have "set ys = set (map PInt (map the_int xs))" and "length ys = length xs"
      by (simp_all add: image_image)
    with True show ?thesis by (simp only: map_PInt_the_int)
  next
    case False
    then have s: "list_all is_PStr xs" and "ys = map PStr (sort (map the_str xs))"
      using assms by (simp_all add: sorted_py_def split: if_splits)
    then have "set ys = set (map PStr (map the_str xs))" and "length ys = length xs"
      by (simp_all add: image_image)
    with s show ?thesis by (simp only: map_PStr_the_str)
  qed
  then show "set ys = set xs" and "length ys = length xs" by simp_all
qed

lemma sorted_py_sorted:
  assumes "sorted_py xs = Inr ys" and "distinct xs"
  shows "sorted_wrt py_less ys" and "distinct ys"
proof -
  have "sorted_wrt py_less ys \<and> distinct ys"
  proof (cases "list_all is_PInt xs")
    case True
    then have ys: "ys = map PInt (sort (map the_int xs))" using assms by (simp add: sorted_py_def)
    have "distinct (map PInt (map the_int xs))" using True assms(2) by (simp only: map_PInt_the_int)
    then have d: "distinct (map the_int xs)" by (simp only: distinct_map)
    then have "distinct (sort (map the_int xs))" by simp
    moreover have "sorted (sort (map the_int xs))" by simp
    ultimately have "sorted_wrt (<) (sort (map the_int xs))" by (simp add: strict_sorted_iff)
    then show ?thesis using ys d by (simp add: sorted_wrt_py_less_PInt distinct_map inj_on_def)
  next
    case False
    then have s: "list_all is_PStr xs" and ys: "ys = map PStr (sort (map the_str xs))"
      using assms by (simp_all add: sorted_py_def split: if_splits)
    have "distinct (map PStr (map the_str xs))" using s assms(2) by (simp only: map_PStr_the_str)
    then have d: "distinct (map the_str xs)" by (simp only: distinct_map)
    then have "distinct (sort (map the_str xs))" by simp
    moreover have "sorted (sort (map the_str xs))" by simp
    ultimately have "sorted_wrt (<) (sort (map the_str xs))" by (simp add: strict_sorted_iff)
    then show ?thesis using ys d by (simp add: sorted_wrt_py_less_PStr distinct_map inj_on_def)
  qed
  then show "sorted_wrt py_less ys" and "distinct ys" by simp_all
qed

subsection \<open>Positions of labels\<close>

lemma index_py_nth:
  "distinct xs \<Longrightarrow> j < length xs \<Longrightarrow> index_py xs (xs ! j) = Inr j"
proof (induction xs arbitrary: j)
  case Nil
  then show ?case by simp
next
  case (Cons y ys)
  show ?case
  proof (cases j)
    case 0
    then show ?thesis by simp
  next
    case (Suc i)
    with Cons.prems have "ys ! i \<noteq> y" and "i < length ys" and "distinct ys" by auto
    with Cons.IH [of i] Suc show ?thesis by auto
  qed
qed

lemma index_py_mem:
  assumes "distinct xs" and "x \<in> set xs"
  shows "\<exists>i. index_py xs x = Inr i \<and> i < length xs \<and> xs ! i = x"
proof -
  from assms(2) obtain i where "i < length xs" and "xs ! i = x" by (auto simp: in_set_conv_nth)
  with index_py_nth [OF assms(1), of i] show ?thesis by auto
qed

subsection \<open>The set of column labels\<close>

lemma set_set_update: "set (set_update s ks) = set s \<union> set ks"
  unfolding set_update_def by (induction ks arbitrary: s) auto

lemma distinct_set_update: "distinct s \<Longrightarrow> distinct (set_update s ks)"
  unfolding set_update_def by (induction ks arbitrary: s) auto

lemma set_colNames:
  "set (fold (\<lambda>r colNames. set_update colNames (map fst r)) rs s) =
   set s \<union> (\<Union>r\<in>set rs. set (map fst r))"
  by (induction rs arbitrary: s) (auto simp: set_set_update)

lemma distinct_colNames:
  "distinct s \<Longrightarrow> distinct (fold (\<lambda>r colNames. set_update colNames (map fst r)) rs s)"
  by (induction rs arbitrary: s) (auto simp: distinct_set_update)

lemma set_col_keys: "set (col_keys dd) = (\<Union>r\<in>set (map snd dd). set (map fst r))"
  by (auto simp: col_keys_def) force+

section \<open>Rounding to the nearest float\<close>

lemma rhe_of_int: "rhe (of_int k) = k"
  by (simp add: rhe_def)

lemma rhe_floor: "\<lfloor>m\<rfloor> \<le> rhe m \<and> rhe m \<le> \<lfloor>m\<rfloor> + 1"
  by (simp add: rhe_def Let_def)

lemma rhe_ge: "of_int k \<le> m \<Longrightarrow> k \<le> rhe m"
  using rhe_floor [of m] by (simp add: le_floor_iff [symmetric])

lemma rhe_le: "m \<le> of_int k \<Longrightarrow> rhe m \<le> k"
proof -
  assume a: "m \<le> of_int k"
  show ?thesis
  proof (cases "m = of_int k")
    case True
    then show ?thesis by (simp add: rhe_of_int)
  next
    case False
    with a have "m < of_int k" by simp
    then have "\<lfloor>m\<rfloor> < k" by (simp add: floor_less_iff)
    with rhe_floor [of m] show ?thesis by linarith
  qed
qed


lemma find_expo_ge: "e \<le> find_expo k e a"
proof (induction k arbitrary: e)
  case 0
  show ?case by simp
next
  case (Suc k)
  show ?case using Suc.IH [of "e + 1"] by simp
qed

lemma find_expo_le: "find_expo k e a \<le> e + int k"
proof (induction k arbitrary: e)
  case 0
  show ?case by simp
next
  case (Suc k)
  show ?case using Suc.IH [of "e + 1"] by simp
qed

lemma find_expo_lower: "2 powi e \<le> a \<Longrightarrow> 2 powi (find_expo k e a) \<le> a"
proof (induction k arbitrary: e)
  case 0
  then show ?case by simp
next
  case (Suc k)
  then show ?case by simp
qed

lemma find_expo_upper: "find_expo k e a < e + int k \<Longrightarrow> a < 2 powi (find_expo k e a + 1)"
proof (induction k arbitrary: e)
  case 0
  then show ?case by simp
next
  case (Suc k)
  show ?case
  proof (cases "2 powi (e + 1) \<le> a")
    case True
    with Suc.prems have "find_expo k (e + 1) a < (e + 1) + int k" by simp
    from Suc.IH [OF this] True show ?thesis by simp
  next
    case False
    then show ?thesis by simp
  qed
qed

lemma find_expo_eq:
  assumes "e \<le> e0" and "e0 \<le> e + int k" and "e < e0 \<longrightarrow> 2 powi e0 \<le> a"
    and "a < 2 powi (e0 + 1)"
  shows "find_expo k e a = e0"
  using assms
proof (induction k arbitrary: e)
  case 0
  then show ?case by simp
next
  case (Suc k)
  show ?case
  proof (cases "e = e0")
    case True
    with Suc.prems(4) show ?thesis by simp
  next
    case False
    with Suc.prems have lt: "e < e0" and le: "(2::real) powi e0 \<le> a" by simp_all
    have "(2::real) powi (e + 1) \<le> 2 powi e0"
      using lt by (intro power_int_increasing) simp_all
    with le have c: "2 powi (e + 1) \<le> a" by simp
    have "find_expo k (e + 1) a = e0"
      using lt Suc.prems le by (intro Suc.IH) simp_all
    with c show ?thesis by simp
  qed
qed

lemma expo_eq:
  assumes "2 powi e \<le> \<bar>x\<bar>" and "\<bar>x\<bar> < 2 powi (e + 1)" and "- 1022 \<le> e" and "e \<le> 1024"
  shows "expo x = e"
  unfolding expo_def using assms by (intro find_expo_eq) simp_all

lemma expo_small: "\<bar>x\<bar> < 2 powi (- 1021) \<Longrightarrow> expo x = - 1022"
  unfolding expo_def by (intro find_expo_eq) simp_all

lemma expo_ge: "- 1022 \<le> expo x"
  unfolding expo_def by (rule find_expo_ge)

lemma expo_le: "expo x \<le> 1024"
  unfolding expo_def using find_expo_le [of 2046 "- 1022" "\<bar>x\<bar>"] by simp

lemma expo_lower: "2 powi (- 1022) \<le> \<bar>x\<bar> \<Longrightarrow> 2 powi (expo x) \<le> \<bar>x\<bar>"
  unfolding expo_def by (rule find_expo_lower)

lemma expo_upper: "expo x < 1024 \<Longrightarrow> \<bar>x\<bar> < 2 powi (expo x + 1)"
  unfolding expo_def using find_expo_upper [of 2046 "- 1022" "\<bar>x\<bar>"] by simp

lemma quantum_pos: "0 < (2::real) powi n"
  by simp

lemma r64_zero: "r64 0 = 0"
  by (simp add: r64_def rhe_def)

lemma r64_nonneg: "0 \<le> x \<Longrightarrow> 0 \<le> r64 x"
proof -
  assume "0 \<le> x"
  then have "of_int 0 \<le> x / 2 powi (expo x - 52)" by simp
  then have "0 \<le> rhe (x / 2 powi (expo x - 52))" by (rule rhe_ge)
  then show ?thesis by (simp add: r64_def Let_def)
qed

lemma r64_exact:
  assumes "x / 2 powi (expo x - 52) = of_int k"
  shows "r64 x = x"
proof -
  have "r64 x = of_int k * 2 powi (expo x - 52)"
    by (simp add: r64_def Let_def assms rhe_of_int)
  also have "\<dots> = x" using assms [symmetric] by simp
  finally show ?thesis .
qed

lemma expo_nonneg: "1 \<le> \<bar>x\<bar> \<Longrightarrow> 0 \<le> expo x"
proof (rule ccontr)
  assume x: "1 \<le> \<bar>x\<bar>" and "\<not> 0 \<le> expo x"
  then have e: "expo x + 1 \<le> 0" by simp
  then have "expo x < 1024" by simp
  then have "\<bar>x\<bar> < 2 powi (expo x + 1)" by (rule expo_upper)
  also have "\<dots> \<le> 2 powi 0" using e by (intro power_int_increasing) simp_all
  finally show False using x by simp
qed

lemma expo_lower_one: "1 \<le> \<bar>x\<bar> \<Longrightarrow> 2 powi (expo x) \<le> \<bar>x\<bar>"
proof -
  assume x: "1 \<le> \<bar>x\<bar>"
  have "(2::real) powi (- 1022) \<le> 2 powi 0" by (intro power_int_increasing) simp_all
  with x have "2 powi (- 1022) \<le> \<bar>x\<bar>" by simp
  then show ?thesis by (rule expo_lower)
qed

lemma powi_split: "(2::real) powi e = 2 powi (e - n) * 2 powi n"
  by (simp flip: power_int_add)

lemma powi_52: "(2::real) powi e = 2 ^ 52 * 2 powi (e - 52)"
proof -
  have "(2::real) powi (52 + (e - 52)) = 2 powi 52 * 2 powi (e - 52)"
    by (rule power_int_add) simp
  then show ?thesis by simp
qed

lemma powi_53: "(2::real) powi (e + 1) = 2 ^ 53 * 2 powi (e - 52)"
proof -
  have "(2::real) powi (53 + (e - 52)) = 2 powi 53 * 2 powi (e - 52)"
    by (rule power_int_add) simp
  then show ?thesis by (simp add: add.commute)
qed

lemma of_int_le_real: "(j::int) \<le> k \<Longrightarrow> real_of_int j \<le> real_of_int k"
  by simp

lemma r64_ge_powi:
  assumes "0 \<le> x" and "2 powi (expo x) \<le> x"
  shows "2 powi (expo x) \<le> r64 x"
proof -
  let ?q = "(2::real) powi (expo x - 52)"
  have p: "(2::real) powi (expo x) = 2 ^ 52 * ?q" by (rule powi_52)
  then have "of_int (2 ^ 52) * ?q \<le> x" using assms(2) by simp
  then have "of_int (2 ^ 52) \<le> x / ?q" by (simp add: pos_le_divide_eq)
  then have "2 ^ 52 \<le> rhe (x / ?q)" by (rule rhe_ge)
  then have "real_of_int (2 ^ 52) \<le> of_int (rhe (x / ?q))" by (rule of_int_le_real)
  then have "real_of_int (2 ^ 52) * ?q \<le> of_int (rhe (x / ?q)) * ?q"
    by (intro mult_right_mono) simp_all
  then show ?thesis unfolding p by (simp add: r64_def Let_def)
qed

lemma r64_ge_one: "1 \<le> x \<Longrightarrow> 1 \<le> r64 x"
proof -
  assume x: "1 \<le> x"
  then have a: "1 \<le> \<bar>x\<bar>" by simp
  have "(1::real) = 2 powi 0" by simp
  also have "\<dots> \<le> 2 powi (expo x)"
    using expo_nonneg [OF a] by (intro power_int_increasing) simp_all
  also have "\<dots> \<le> r64 x"
    using x expo_lower_one [OF a] by (intro r64_ge_powi) simp_all
  finally show ?thesis .
qed


lemma r64_int:
  assumes "\<bar>k\<bar> \<le> 2 ^ 53"
  shows "r64 (of_int k) = of_int k"
proof (cases "k = 0")
  case True
  then show ?thesis by (simp add: r64_zero)
next
  case False
  let ?x = "real_of_int k"
  let ?e = "expo ?x"
  from False have "1 \<le> \<bar>k\<bar>" by linarith
  then have "real_of_int 1 \<le> real_of_int \<bar>k\<bar>" by (rule of_int_le_real)
  then have a: "1 \<le> \<bar>?x\<bar>" by simp
  have e0: "0 \<le> ?e" using a by (rule expo_nonneg)
  have lo: "2 powi ?e \<le> \<bar>?x\<bar>" using a by (rule expo_lower_one)
  from assms have "real_of_int \<bar>k\<bar> \<le> real_of_int (2 ^ 53)" by (rule of_int_le_real)
  then have hi: "\<bar>?x\<bar> \<le> 2 powi 53" by simp
  have e53: "?e \<le> 53"
  proof (rule ccontr)
    assume "\<not> ?e \<le> 53"
    then have "(2::real) powi 53 < 2 powi ?e" by (intro power_int_strict_increasing) simp_all
    with lo hi show False by simp
  qed
  show ?thesis
  proof (cases "?e \<le> 52")
    case True
    define n where "n = nat (52 - ?e)"
    have "?e - 52 = - int n" using True by (simp add: n_def)
    then have "(2::real) powi (?e - 52) = inverse (2 ^ n)"
      by (simp add: power_int_minus)
    then have "?x / 2 powi (?e - 52) = of_int (k * 2 ^ n)"
      by (simp add: divide_inverse)
    then show ?thesis by (rule r64_exact)
  next
    case False
    with e53 have e: "?e = 53" by simp
    with lo hi have "\<bar>?x\<bar> = 2 ^ 53" by simp
    then have "?x = 2 ^ 53 \<or> ?x = - (2 ^ 53)" by linarith
    then have "?x / 2 powi (?e - 52) = of_int (2 ^ 52) \<or> ?x / 2 powi (?e - 52) = of_int (- (2 ^ 52))"
      using e by auto
    then show ?thesis using r64_exact by blast
  qed
qed

lemma r64_le_powi:
  assumes "0 \<le> x" and "expo x < 1024"
  shows "r64 x \<le> 2 powi (expo x + 1)"
proof -
  let ?q = "(2::real) powi (expo x - 52)"
  have p: "(2::real) powi (expo x + 1) = 2 ^ 53 * ?q" by (rule powi_53)
  have "x < 2 powi (expo x + 1)" using assms expo_upper [of x] by simp
  then have "x / ?q \<le> of_int (2 ^ 53)" unfolding p by (simp add: pos_divide_le_eq)
  then have "rhe (x / ?q) \<le> 2 ^ 53" by (rule rhe_le)
  then have "real_of_int (rhe (x / ?q)) \<le> real_of_int (2 ^ 53)" by (rule of_int_le_real)
  then have "of_int (rhe (x / ?q)) * ?q \<le> real_of_int (2 ^ 53) * ?q"
    by (intro mult_right_mono) simp_all
  then show ?thesis unfolding p by (simp add: r64_def Let_def)
qed

lemma r64_le_max:
  assumes "0 \<le> x" and "x \<le> max_float"
  shows "r64 x \<le> max_float"
proof -
  have e: "expo x \<le> 1023"
  proof (rule ccontr)
    assume "\<not> expo x \<le> 1023"
    with expo_le [of x] have e: "expo x = 1024" by simp
    have "(2::real) powi (- 1022) \<le> 2 powi 1024" by (intro power_int_increasing) simp_all
    moreover have "2 powi (expo x) \<le> \<bar>x\<bar> \<or> \<bar>x\<bar> < 2 powi (- 1022)"
      using expo_lower [of x] by linarith
    ultimately have "2 powi 1024 \<le> \<bar>x\<bar> \<or> expo x = - 1022"
      using e expo_small [of x] by auto
    with e assms show False by (simp add: max_float_def)
  qed
  show ?thesis
  proof (cases "expo x = 1023")
    case True
    let ?q = "(2::real) powi (expo x - 52)"
    have q: "?q = 2 ^ 971" using True by simp
    have "x / ?q \<le> of_int (2 ^ 53 - 1)"
      using assms(2) unfolding q max_float_def by (simp add: pos_divide_le_eq algebra_simps)
    then have "rhe (x / ?q) \<le> 2 ^ 53 - 1" by (rule rhe_le)
    then have "real_of_int (rhe (x / ?q)) \<le> real_of_int (2 ^ 53 - 1)" by (rule of_int_le_real)
    then have "of_int (rhe (x / ?q)) * ?q \<le> real_of_int (2 ^ 53 - 1) * ?q"
      by (intro mult_right_mono) simp_all
    then show ?thesis unfolding r64_def Let_def q max_float_def by (simp add: algebra_simps)
  next
    case False
    with e have e2: "expo x + 1 \<le> 1023" by simp
    have "r64 x \<le> 2 powi (expo x + 1)" using assms(1) e by (intro r64_le_powi) simp_all
    also have "\<dots> \<le> 2 powi 1023" using e2 by (intro power_int_increasing) simp_all
    also have "\<dots> \<le> max_float" by (simp add: max_float_def)
    finally show ?thesis .
  qed
qed

lemma r64_overflow:
  assumes "2 ^ 1024 \<le> x"
  shows "2 ^ 1024 \<le> r64 x"
proof -
  have "(1::real) \<le> 2 ^ 1024" by simp
  with assms have x0: "0 \<le> x" and x1: "1 \<le> \<bar>x\<bar>" by simp_all
  have lo: "2 powi (expo x) \<le> x" using expo_lower_one [OF x1] x0 by simp
  have "expo x = 1024"
  proof (rule ccontr)
    assume "expo x \<noteq> 1024"
    with expo_le [of x] have e: "expo x < 1024" by simp
    then have "\<bar>x\<bar> < 2 powi (expo x + 1)" by (rule expo_upper)
    also have "\<dots> \<le> 2 powi 1024" using e by (intro power_int_increasing) simp_all
    finally show False using assms x0 by simp
  qed
  with r64_ge_powi [OF x0 lo] show ?thesis by simp
qed


lemma r64_big: "r64 9007199254740993 = 9007199254740992"
proof -
  have e: "expo 9007199254740993 = 53" by (rule expo_eq) simp_all
  show ?thesis unfolding r64_def Let_def e by (simp add: rhe_def Let_def)
qed

lemma float_of_int_ok: "float_ok v \<Longrightarrow> float_of_int v = Inr (r64 (real_of_int v))"
  by (auto simp: float_ok_def float_of_int_def fl_def Let_def)

lemma float_of_int_overflow: "\<not> float_ok v \<Longrightarrow> float_of_int v = Inl OverflowError"
  by (auto simp: float_ok_def float_of_int_def fl_def Let_def)

lemma float_ok_small: "\<bar>v\<bar> \<le> 2 ^ 53 \<Longrightarrow> float_ok v"
proof -
  assume v: "\<bar>v\<bar> \<le> 2 ^ 53"
  then have "real_of_int \<bar>v\<bar> \<le> real_of_int (2 ^ 53)" by (rule of_int_le_real)
  then have "\<bar>real_of_int v\<bar> \<le> 2 ^ 53" by simp
  also have "(2::real) ^ 53 < 2 ^ 1024" by simp
  finally show ?thesis by (simp add: float_ok_def r64_int [OF v])
qed

subsection \<open>The loops that fill the matrix\<close>

lemma fill_row_spec:
  assumes "distinct colNames" and "set (map fst items) \<subseteq> set colNames"
    and "distinct (map fst items)" and "list_all (\<lambda>(n, c). float_ok c) items"
    and "ri < length ret" and "length (ret ! ri) = length colNames"
  shows "\<exists>ret'. fill_row colNames ri items ret = Inr ret'
           \<and> length ret' = length ret
           \<and> (\<forall>i<length ret. i \<noteq> ri \<longrightarrow> ret' ! i = ret ! i)
           \<and> length (ret' ! ri) = length colNames
           \<and> (\<forall>j<length colNames. ret' ! ri ! j =
                 (case map_of items (colNames ! j) of
                    None \<Rightarrow> ret ! ri ! j | Some v \<Rightarrow> r64 (real_of_int v)))"
  using assms(2-)
proof (induction items arbitrary: ret)
  case Nil
  then show ?case by simp
next
  case (Cons p items)
  obtain cn v where p: "p = (cn, v)" by (cases p)
  from Cons.prems p have cn: "cn \<in> set colNames" by simp
  from index_py_mem [OF assms(1) cn] obtain ci
    where ci: "index_py colNames cn = Inr ci" "ci < length colNames" "colNames ! ci = cn"
    by blast
  from Cons.prems(3) p have "float_ok v" by simp
  then have fv: "float_of_int v = Inr (r64 (real_of_int v))" by (rule float_of_int_ok)
  let ?ret1 = "ret[ri := (ret ! ri)[ci := r64 (real_of_int v)]]"
  have pre: "set (map fst items) \<subseteq> set colNames" "distinct (map fst items)"
    "list_all (\<lambda>(n, c). float_ok c) items"
    "ri < length ?ret1" "length (?ret1 ! ri) = length colNames"
    using Cons.prems by simp_all
  from Cons.IH [OF pre] obtain ret'
    where r: "fill_row colNames ri items ?ret1 = Inr ret'"
      and l: "length ret' = length ?ret1"
      and o: "\<forall>i<length ?ret1. i \<noteq> ri \<longrightarrow> ret' ! i = ?ret1 ! i"
      and lr: "length (ret' ! ri) = length colNames"
      and c: "\<forall>j<length colNames. ret' ! ri ! j =
                 (case map_of items (colNames ! j) of
                    None \<Rightarrow> ?ret1 ! ri ! j | Some v \<Rightarrow> r64 (real_of_int v))"
    by blast
  have fresh: "map_of items cn = None"
    using Cons.prems(2) p by (simp add: map_of_eq_None_iff)
  have cells: "\<forall>j<length colNames. ret' ! ri ! j =
                 (case map_of (p # items) (colNames ! j) of
                    None \<Rightarrow> ret ! ri ! j | Some v \<Rightarrow> r64 (real_of_int v))"
  proof (intro allI impI)
    fix j assume j: "j < length colNames"
    show "ret' ! ri ! j =
            (case map_of (p # items) (colNames ! j) of
               None \<Rightarrow> ret ! ri ! j | Some v \<Rightarrow> r64 (real_of_int v))"
    proof (cases "j = ci")
      case True
      with c j ci fresh Cons.prems(4,5) p show ?thesis by (simp split: option.splits)
    next
      case False
      with j ci assms(1) have "colNames ! j \<noteq> cn" by (auto simp: nth_eq_iff_index_eq)
      with c j False Cons.prems(4,5) p show ?thesis by (simp split: option.splits)
    qed
  qed
  have "fill_row colNames ri (p # items) ret = Inr ret'" using p ci fv r by simp
  moreover have "length ret' = length ret" using l by simp
  moreover have "\<forall>i<length ret. i \<noteq> ri \<longrightarrow> ret' ! i = ret ! i" using o by simp
  ultimately show ?case using lr cells by blast
qed

lemma fill_row_overflow:
  assumes "distinct colNames" and "set (map fst items) \<subseteq> set colNames"
    and "\<not> list_all (\<lambda>(n, c). float_ok c) items"
  shows "fill_row colNames ri items ret = Inl OverflowError"
  using assms(2-)
proof (induction items arbitrary: ret)
  case Nil
  then show ?case by simp
next
  case (Cons p items)
  obtain cn v where p: "p = (cn, v)" by (cases p)
  from Cons.prems p have cn: "cn \<in> set colNames" by simp
  from index_py_mem [OF assms(1) cn] obtain ci
    where ci: "index_py colNames cn = Inr ci" by blast
  show ?case
  proof (cases "float_ok v")
    case False
    then show ?thesis using p ci by (simp add: float_of_int_overflow)
  next
    case True
    with Cons.prems p have "set (map fst items) \<subseteq> set colNames"
      and "\<not> list_all (\<lambda>(n, c). float_ok c) items" by simp_all
    from Cons.IH [OF this] show ?thesis
      using p ci True by (simp add: float_of_int_ok)
  qed
qed

lemma fill_tbl_spec:
  assumes "distinct rowNames" and "distinct colNames"
    and "set (map fst items) \<subseteq> set rowNames" and "distinct (map fst items)"
    and "\<forall>(k, r)\<in>set items. distinct (map fst r) \<and> set (map fst r) \<subseteq> set colNames"
    and "counts_ok items"
    and "length ret = length rowNames"
    and "\<forall>i<length rowNames. length (ret ! i) = length colNames"
  shows "\<exists>ret'. fill_tbl rowNames colNames items ret = Inr ret'
           \<and> length ret' = length rowNames
           \<and> (\<forall>i<length rowNames. length (ret' ! i) = length colNames
                \<and> (\<forall>j<length colNames. ret' ! i ! j =
                      (case map_of items (rowNames ! i) of
                         None \<Rightarrow> ret ! i ! j
                       | Some r \<Rightarrow> (case map_of r (colNames ! j) of
                                     None \<Rightarrow> ret ! i ! j
                                   | Some v \<Rightarrow> r64 (real_of_int v)))))"
  using assms(3-)
proof (induction items arbitrary: ret)
  case Nil
  then show ?case by simp
next
  case (Cons p items)
  obtain rn r where p: "p = (rn, r)" by (cases p)
  from Cons.prems p have rn: "rn \<in> set rowNames" by simp
  from index_py_mem [OF assms(1) rn] obtain ri
    where ri: "index_py rowNames rn = Inr ri" "ri < length rowNames" "rowNames ! ri = rn"
    by blast
  have rk: "distinct (map fst r)" "set (map fst r) \<subseteq> set colNames"
    using Cons.prems(3) p by auto
  have ok: "list_all (\<lambda>(n, c). float_ok c) r" and oks: "counts_ok items"
    using Cons.prems(4) p by (simp_all add: counts_ok_def)
  have "ri < length ret" "length (ret ! ri) = length colNames"
    using ri Cons.prems(5,6) by simp_all
  from fill_row_spec [OF assms(2) rk(2) rk(1) ok this] obtain ret1
    where f1: "fill_row colNames ri r ret = Inr ret1"
      and l1: "length ret1 = length ret"
      and o1: "\<forall>i<length ret. i \<noteq> ri \<longrightarrow> ret1 ! i = ret ! i"
      and lr1: "length (ret1 ! ri) = length colNames"
      and c1: "\<forall>j<length colNames. ret1 ! ri ! j =
                 (case map_of r (colNames ! j) of
                    None \<Rightarrow> ret ! ri ! j | Some v \<Rightarrow> r64 (real_of_int v))"
    by blast
  have len1: "\<forall>i<length rowNames. length (ret1 ! i) = length colNames"
  proof (intro allI impI)
    fix i assume "i < length rowNames"
    then show "length (ret1 ! i) = length colNames"
      using o1 lr1 Cons.prems(5,6) by (cases "i = ri") auto
  qed
  have pre: "set (map fst items) \<subseteq> set rowNames" "distinct (map fst items)"
    "\<forall>(k, r)\<in>set items. distinct (map fst r) \<and> set (map fst r) \<subseteq> set colNames"
    "counts_ok items" "length ret1 = length rowNames"
    using Cons.prems l1 oks by simp_all
  from Cons.IH [OF pre len1] obtain ret'
    where f: "fill_tbl rowNames colNames items ret1 = Inr ret'"
      and l: "length ret' = length rowNames"
      and c: "\<forall>i<length rowNames. length (ret' ! i) = length colNames
                \<and> (\<forall>j<length colNames. ret' ! i ! j =
                      (case map_of items (rowNames ! i) of
                         None \<Rightarrow> ret1 ! i ! j
                       | Some r \<Rightarrow> (case map_of r (colNames ! j) of
                                     None \<Rightarrow> ret1 ! i ! j
                                   | Some v \<Rightarrow> r64 (real_of_int v))))"
    by blast
  have fresh: "map_of items rn = None"
    using Cons.prems(2) p by (simp add: map_of_eq_None_iff)
  have cells: "\<forall>i<length rowNames. length (ret' ! i) = length colNames
                \<and> (\<forall>j<length colNames. ret' ! i ! j =
                      (case map_of (p # items) (rowNames ! i) of
                         None \<Rightarrow> ret ! i ! j
                       | Some r \<Rightarrow> (case map_of r (colNames ! j) of
                                     None \<Rightarrow> ret ! i ! j
                                   | Some v \<Rightarrow> r64 (real_of_int v))))"
  proof (intro allI impI conjI)
    fix i assume i: "i < length rowNames"
    then show "length (ret' ! i) = length colNames" using c by blast
    fix j assume j: "j < length colNames"
    from c i j have e: "ret' ! i ! j =
                      (case map_of items (rowNames ! i) of
                         None \<Rightarrow> ret1 ! i ! j
                       | Some r \<Rightarrow> (case map_of r (colNames ! j) of
                                     None \<Rightarrow> ret1 ! i ! j
                                   | Some v \<Rightarrow> r64 (real_of_int v)))"
      by blast
    show "ret' ! i ! j =
            (case map_of (p # items) (rowNames ! i) of
               None \<Rightarrow> ret ! i ! j
             | Some r \<Rightarrow> (case map_of r (colNames ! j) of
                           None \<Rightarrow> ret ! i ! j | Some v \<Rightarrow> r64 (real_of_int v)))"
    proof (cases "i = ri")
      case True
      with e fresh ri c1 j p show ?thesis by (auto split: option.splits)
    next
      case False
      with i ri assms(1) have ne: "rowNames ! i \<noteq> rn" by (auto simp: nth_eq_iff_index_eq)
      from False i o1 Cons.prems(5) have "ret1 ! i = ret ! i" by simp
      with e ne p show ?thesis by (auto split: option.splits)
    qed
  qed
  have "fill_tbl rowNames colNames (p # items) ret = Inr ret'" using p ri f1 f by simp
  with l cells show ?case by blast
qed

lemma fill_row_returns_or_overflows:
  assumes "distinct colNames" and "set (map fst items) \<subseteq> set colNames"
  shows "fill_row colNames ri items ret = Inl OverflowError
       \<or> (\<exists>ret'. fill_row colNames ri items ret = Inr ret')"
  using assms(2)
proof (induction items arbitrary: ret)
  case Nil
  then show ?case by simp
next
  case (Cons p items)
  obtain cn v where p: "p = (cn, v)" by (cases p)
  from Cons.prems p have cn: "cn \<in> set colNames" by simp
  from index_py_mem [OF assms(1) cn] obtain ci
    where ci: "index_py colNames cn = Inr ci" by blast
  show ?case
  proof (cases "float_ok v")
    case False
    then show ?thesis using p ci by (simp add: float_of_int_overflow)
  next
    case True
    from Cons.prems p have "set (map fst items) \<subseteq> set colNames" by simp
    from Cons.IH [OF this, of "ret[ri := (ret ! ri)[ci := r64 (real_of_int v)]]"]
    show ?thesis using p ci True by (simp add: float_of_int_ok)
  qed
qed

lemma fill_tbl_overflow:
  assumes "distinct rowNames" and "distinct colNames"
    and "set (map fst items) \<subseteq> set rowNames"
    and "\<forall>(k, r)\<in>set items. set (map fst r) \<subseteq> set colNames"
    and "\<not> counts_ok items"
  shows "fill_tbl rowNames colNames items ret = Inl OverflowError"
  using assms(3-)
proof (induction items arbitrary: ret)
  case Nil
  then show ?case by (simp add: counts_ok_def)
next
  case (Cons p items)
  obtain rn r where p: "p = (rn, r)" by (cases p)
  from Cons.prems p have rn: "rn \<in> set rowNames" by simp
  from index_py_mem [OF assms(1) rn] obtain ri
    where ri: "index_py rowNames rn = Inr ri" by blast
  have rk: "set (map fst r) \<subseteq> set colNames" using Cons.prems(2) p by auto
  show ?case
  proof (cases "list_all (\<lambda>(n, c). float_ok c) r")
    case False
    from fill_row_overflow [OF assms(2) rk False]
    show ?thesis using p ri by simp
  next
    case True
    with Cons.prems p have pre: "set (map fst items) \<subseteq> set rowNames"
      "\<forall>(k, r)\<in>set items. set (map fst r) \<subseteq> set colNames" "\<not> counts_ok items"
      by (simp_all add: counts_ok_def)
    from fill_row_returns_or_overflows [OF assms(2) rk, of ri ret]
    show ?thesis
    proof
      assume "fill_row colNames ri r ret = Inl OverflowError"
      then show ?thesis using p ri by simp
    next
      assume "\<exists>ret'. fill_row colNames ri r ret = Inr ret'"
      then obtain ret1 where "fill_row colNames ri r ret = Inr ret1" by blast
      with Cons.IH [OF pre, of ret1] show ?thesis using p ri by simp
    qed
  qed
qed

section \<open>The table of an accumulator\<close>

lemma comparable_set: "set xs = set ys \<Longrightarrow> comparable xs = comparable ys"
  by (simp add: comparable_def list_all_iff)

lemma set_colNames_col_keys:
  "set (fold (\<lambda>r colNames. set_update colNames (map fst r)) (map snd dd) []) = set (col_keys dd)"
  by (simp only: set_colNames set_col_keys) simp

lemma cell_map_of:
  "r64 (real_of_int (cell dd r c)) =
     (case map_of dd r of
        None \<Rightarrow> 0
      | Some row \<Rightarrow> (case map_of row c of None \<Rightarrow> 0 | Some v \<Rightarrow> r64 (real_of_int v)))"
  by (simp add: cell_def dict_get_def r64_zero split: option.splits)

lemma zeros_nth: "i < r \<Longrightarrow> j < c \<Longrightarrow> zeros r c ! i ! j = 0"
  by (simp add: zeros_def)

lemma dictsToTbl_raises:
  assumes "\<not> (comparable (map fst dd) \<and> comparable (col_keys dd))"
  shows "dictsToTbl dd = Inl TypeError"
proof (cases "comparable (map fst dd)")
  case False
  then show ?thesis by (simp add: dictsToTbl_def sorted_py_raises)
next
  case True
  from sorted_py_returns [OF True] obtain rowNames
    where rs: "sorted_py (map fst dd) = Inr rowNames" by blast
  from True assms have "\<not> comparable (col_keys dd)" by simp
  then have "\<not> comparable (fold (\<lambda>r colNames. set_update colNames (map fst r)) (map snd dd) [])"
    using comparable_set [OF set_colNames_col_keys] by simp
  then have "sorted_py (fold (\<lambda>r colNames. set_update colNames (map fst r)) (map snd dd) [])
             = Inl TypeError"
    by (rule sorted_py_raises)
  with rs show ?thesis by (simp add: dictsToTbl_def)
qed

lemma dictsToTbl_labels:
  assumes "wf_acc dd" and "comparable (map fst dd)" and "comparable (col_keys dd)"
  shows "\<exists>rowNames colNames.
           sorted_py (map fst dd) = Inr rowNames
         \<and> sorted_py (fold (\<lambda>r colNames. set_update colNames (map fst r)) (map snd dd) [])
             = Inr colNames
         \<and> set rowNames = set (map fst dd) \<and> distinct rowNames \<and> sorted_wrt py_less rowNames
         \<and> set colNames = set (col_keys dd) \<and> distinct colNames \<and> sorted_wrt py_less colNames"
proof -
  let ?cs = "fold (\<lambda>r colNames. set_update colNames (map fst r)) (map snd dd) []"
  from assms(1) have dk: "distinct (map fst dd)" by (simp add: wf_acc_def)
  from sorted_py_returns [OF assms(2)] obtain rowNames
    where rs: "sorted_py (map fst dd) = Inr rowNames" by blast
  have rset: "set rowNames = set (map fst dd)" using rs by (rule sorted_py_set)
  have rsorted: "sorted_wrt py_less rowNames" and rdist: "distinct rowNames"
    using sorted_py_sorted [OF rs dk] by simp_all
  have "comparable ?cs" using assms(3) comparable_set [OF set_colNames_col_keys] by simp
  from sorted_py_returns [OF this] obtain colNames
    where cs: "sorted_py ?cs = Inr colNames" by blast
  have dcs: "distinct ?cs" by (simp add: distinct_colNames)
  have cset: "set colNames = set (col_keys dd)"
    using sorted_py_set(1) [OF cs] set_colNames_col_keys by simp
  have csorted: "sorted_wrt py_less colNames" and cdist: "distinct colNames"
    using sorted_py_sorted [OF cs dcs] by simp_all
  from rs cs rset rdist rsorted cset cdist csorted show ?thesis by blast
qed

lemma dictsToTbl_overflow:
  assumes "wf_acc dd" and "comparable (map fst dd)" and "comparable (col_keys dd)"
    and "\<not> counts_ok dd"
  shows "dictsToTbl dd = Inl OverflowError"
proof -
  from dictsToTbl_labels [OF assms(1-3)] obtain rowNames colNames
    where rs: "sorted_py (map fst dd) = Inr rowNames"
      and cs: "sorted_py (fold (\<lambda>r colNames. set_update colNames (map fst r)) (map snd dd) [])
                 = Inr colNames"
      and p: "set rowNames = set (map fst dd)" "distinct rowNames"
        "set colNames = set (col_keys dd)" "distinct colNames"
    by blast
  have rows_ok: "\<forall>(k, r)\<in>set dd. set (map fst r) \<subseteq> set colNames"
    using p(3) by (auto simp: col_keys_def)
  have "set (map fst dd) \<subseteq> set rowNames" using p(1) by simp
  from fill_tbl_overflow [OF p(2) p(4) this rows_ok assms(4)]
  show ?thesis using rs cs by (simp add: dictsToTbl_def)
qed

lemma dictsToTbl_spec:
  assumes "wf_acc dd" and "comparable (map fst dd)" and "comparable (col_keys dd)"
    and "counts_ok dd"
  shows "\<exists>rowNames colNames.
           dictsToTbl dd =
             Inr (map (\<lambda>r. map (\<lambda>c. r64 (real_of_int (cell dd r c))) colNames) rowNames,
                  rowNames, colNames)
         \<and> set rowNames = set (map fst dd) \<and> distinct rowNames \<and> sorted_wrt py_less rowNames
         \<and> set colNames = set (col_keys dd) \<and> distinct colNames \<and> sorted_wrt py_less colNames"
proof -
  from assms(1) have dk: "distinct (map fst dd)" by (simp add: wf_acc_def)
  from dictsToTbl_labels [OF assms(1-3)] obtain rowNames colNames
    where rs: "sorted_py (map fst dd) = Inr rowNames"
      and cs: "sorted_py (fold (\<lambda>r colNames. set_update colNames (map fst r)) (map snd dd) [])
                 = Inr colNames"
      and rset: "set rowNames = set (map fst dd)" and rdist: "distinct rowNames"
      and rsorted: "sorted_wrt py_less rowNames"
      and cset: "set colNames = set (col_keys dd)" and cdist: "distinct colNames"
      and csorted: "sorted_wrt py_less colNames"
    by blast
  let ?z = "zeros (length rowNames) (length colNames)"
  have rows_ok: "\<forall>(k, r)\<in>set dd. distinct (map fst r) \<and> set (map fst r) \<subseteq> set colNames"
    using assms(1) cset by (auto simp: wf_acc_def list_all_iff col_keys_def)
  have "set (map fst dd) \<subseteq> set rowNames" using rset by simp
  from fill_tbl_spec [OF rdist cdist this dk rows_ok assms(4), of ?z] obtain ret
    where f: "fill_tbl rowNames colNames dd ?z = Inr ret"
      and l: "length ret = length rowNames"
      and c: "\<forall>i<length rowNames. length (ret ! i) = length colNames
                \<and> (\<forall>j<length colNames. ret ! i ! j =
                      (case map_of dd (rowNames ! i) of
                         None \<Rightarrow> ?z ! i ! j
                       | Some r \<Rightarrow> (case map_of r (colNames ! j) of
                                     None \<Rightarrow> ?z ! i ! j
                                   | Some v \<Rightarrow> r64 (real_of_int v))))"
    by (auto simp: zeros_def)
  have "ret = map (\<lambda>r. map (\<lambda>c. r64 (real_of_int (cell dd r c))) colNames) rowNames"
  proof (rule nth_equalityI)
    show "length ret =
          length (map (\<lambda>r. map (\<lambda>c. r64 (real_of_int (cell dd r c))) colNames) rowNames)"
      using l by simp
  next
    fix i assume "i < length ret"
    then have i: "i < length rowNames" using l by simp
    have "ret ! i = map (\<lambda>c. r64 (real_of_int (cell dd (rowNames ! i) c))) colNames"
    proof (rule nth_equalityI)
      show "length (ret ! i) =
            length (map (\<lambda>c. r64 (real_of_int (cell dd (rowNames ! i) c))) colNames)"
        using c i by simp
    next
      fix j assume "j < length (ret ! i)"
      then have j: "j < length colNames" using c i by simp
      from c i j have "ret ! i ! j =
                      (case map_of dd (rowNames ! i) of
                         None \<Rightarrow> ?z ! i ! j
                       | Some r \<Rightarrow> (case map_of r (colNames ! j) of
                                     None \<Rightarrow> ?z ! i ! j
                                   | Some v \<Rightarrow> r64 (real_of_int v)))"
        by blast
      then show "ret ! i ! j =
                 map (\<lambda>c. r64 (real_of_int (cell dd (rowNames ! i) c))) colNames ! j"
        using i j by (simp add: zeros_nth cell_map_of split: option.splits)
    qed
    then show "ret ! i =
               map (\<lambda>r. map (\<lambda>c. r64 (real_of_int (cell dd r c))) colNames) rowNames ! i"
      using i by simp
  qed
  with f rs cs have "dictsToTbl dd =
             Inr (map (\<lambda>r. map (\<lambda>c. r64 (real_of_int (cell dd r c))) colNames) rowNames,
                  rowNames, colNames)"
    by (simp add: dictsToTbl_def)
  with rset rdist rsorted cset cdist csorted show ?thesis by blast
qed

lemma dictsToTbl_returns:
  assumes "wf_acc dd" and "dictsToTbl dd = Inr (ret, rowNames, colNames)"
  shows "ret = map (\<lambda>r. map (\<lambda>c. r64 (real_of_int (cell dd r c))) colNames) rowNames"
    and "set rowNames = set (map fst dd)" and "distinct rowNames" and "sorted_wrt py_less rowNames"
    and "set colNames = set (col_keys dd)" and "distinct colNames"
    and "sorted_wrt py_less colNames" and "counts_ok dd"
proof -
  have c: "comparable (map fst dd)" "comparable (col_keys dd)"
    using assms(2) dictsToTbl_raises [of dd] by auto
  have ok: "counts_ok dd"
    using assms dictsToTbl_overflow [OF assms(1) c] by auto
  with dictsToTbl_spec [OF assms(1) c] assms(2)
  have "ret = map (\<lambda>r. map (\<lambda>c. r64 (real_of_int (cell dd r c))) colNames) rowNames
      \<and> set rowNames = set (map fst dd) \<and> distinct rowNames \<and> sorted_wrt py_less rowNames
      \<and> set colNames = set (col_keys dd) \<and> distinct colNames \<and> sorted_wrt py_less colNames"
    by auto
  with ok show "ret = map (\<lambda>r. map (\<lambda>c. r64 (real_of_int (cell dd r c))) colNames) rowNames"
    and "set rowNames = set (map fst dd)" and "distinct rowNames" and "sorted_wrt py_less rowNames"
    and "set colNames = set (col_keys dd)" and "distinct colNames"
    and "sorted_wrt py_less colNames" and "counts_ok dd"
    by simp_all
qed

subsection \<open>Counts that floats hold exactly\<close>

lemma dict_get_distinct:
  "distinct (map fst d) \<Longrightarrow> (k, v) \<in> set d \<Longrightarrow> dict_get d k dflt = v"
  by (simp add: dict_get_def)

lemma dict_get_absent: "k \<notin> set (map fst d) \<Longrightarrow> dict_get d k dflt = dflt"
  by (simp add: dict_get_def map_of_eq_None_iff [THEN iffD2])

lemma int_member_le_sum_list:
  fixes xs :: "int list"
  assumes "\<forall>y\<in>set xs. 0 \<le> y" and "x \<in> set xs"
  shows "x \<le> sum_list xs"
  using assms
proof (induction xs)
  case Nil
  then show ?case by simp
next
  case (Cons y ys)
  have nn: "0 \<le> sum_list ys" by (rule sum_list_nonneg) (use Cons.prems in force)
  show ?case
  proof (cases "x = y")
    case True
    with nn show ?thesis by simp
  next
    case False
    with Cons.prems have "x \<in> set ys" and "\<forall>y\<in>set ys. 0 \<le> y" and "0 \<le> y" by simp_all
    with Cons.IH show ?thesis by simp
  qed
qed

lemma row_total_nonneg:
  assumes "counts_ge 0 dd"
  shows "0 \<le> row_total dd r"
proof -
  have "dict_get dd r [] = [] \<or> (r, dict_get dd r []) \<in> set dd" by (rule dict_get_row_mem)
  then have nn: "\<forall>y\<in>set (map snd (dict_get dd r [])). 0 \<le> y"
    using assms unfolding counts_ge_def list_all_iff by fastforce
  show ?thesis unfolding row_total_def by (rule sum_list_nonneg) (use nn in blast)
qed

lemma cell_bounds:
  assumes "counts_ge 0 dd"
  shows "0 \<le> cell dd r c" and "cell dd r c \<le> row_total dd r"
proof -
  let ?row = "dict_get dd r []"
  have "?row = [] \<or> (r, ?row) \<in> set dd" by (rule dict_get_row_mem)
  then have nn: "\<forall>y\<in>set (map snd ?row). 0 \<le> y"
    using assms unfolding counts_ge_def list_all_iff by fastforce
  have "dict_get ?row c 0 = (0::int) \<or> (c, dict_get ?row c 0) \<in> set ?row"
    by (rule dict_get_count_mem)
  then have "0 \<le> cell dd r c \<and> cell dd r c \<le> row_total dd r"
  proof
    assume "dict_get ?row c 0 = 0"
    then show ?thesis using row_total_nonneg [OF assms, of r] by (simp add: cell_def)
  next
    assume "(c, dict_get ?row c 0) \<in> set ?row"
    then have m: "cell dd r c \<in> set (map snd ?row)" by (force simp: cell_def)
    from int_member_le_sum_list [OF nn m] nn m show ?thesis by (auto simp: row_total_def)
  qed
  then show "0 \<le> cell dd r c" and "cell dd r c \<le> row_total dd r" by simp_all
qed

lemma row_total_le_grand_total:
  assumes "counts_ge 0 dd"
  shows "row_total dd r \<le> grand_total dd"
proof -
  let ?sums = "map (\<lambda>(k, r). sum_list (map snd r)) dd"
  have nn: "\<forall>y\<in>set ?sums. 0 \<le> y"
  proof
    fix y assume "y \<in> set ?sums"
    then obtain k row where "(k, row) \<in> set dd" and y: "y = sum_list (map snd row)" by auto
    with assms have rn: "\<forall>x\<in>set (map snd row). 0 \<le> x"
      unfolding counts_ge_def list_all_iff by fastforce
    show "0 \<le> y" unfolding y by (rule sum_list_nonneg) (use rn in blast)
  qed
  have "dict_get dd r [] = [] \<or> (r, dict_get dd r []) \<in> set dd" by (rule dict_get_row_mem)
  then show ?thesis
  proof
    assume "dict_get dd r [] = []"
    then have "row_total dd r = 0" by (simp add: row_total_def)
    moreover have "0 \<le> grand_total dd"
      unfolding grand_total_def by (rule sum_list_nonneg) (use nn in blast)
    ultimately show ?thesis by simp
  next
    assume "(r, dict_get dd r []) \<in> set dd"
    then have "row_total dd r \<in> set ?sums" by (force simp: row_total_def)
    from int_member_le_sum_list [OF nn this] show ?thesis by (simp add: grand_total_def)
  qed
qed

lemma cell_exact:
  assumes "counts_ge 0 dd" and "grand_total dd \<le> 2 ^ 53"
  shows "r64 (real_of_int (cell dd r c)) = real_of_int (cell dd r c)"
proof -
  have "0 \<le> cell dd r c" and "cell dd r c \<le> 2 ^ 53"
    using cell_bounds [OF assms(1), of r c] row_total_le_grand_total [OF assms(1), of r] assms(2)
    by simp_all
  then have "\<bar>cell dd r c\<bar> \<le> 2 ^ 53" by simp
  then show ?thesis by (rule r64_int)
qed

lemma counts_ok_small:
  assumes "counts_ge 0 dd" and "grand_total dd \<le> 2 ^ 53" and "wf_acc dd"
  shows "counts_ok dd"
  unfolding counts_ok_def list_all_iff
proof (intro ballI)
  fix p assume p: "p \<in> set dd"
  obtain k row where kr: "p = (k, row)" by (cases p)
  have "\<forall>x\<in>set row. case x of (n, c) \<Rightarrow> float_ok c"
  proof
    fix x assume x: "x \<in> set row"
    obtain n c where nc: "x = (n, c)" by (cases x)
    from assms(3) p kr have "dict_get dd k [] = row"
      by (simp add: wf_acc_def dict_get_distinct)
    moreover from assms(3) p kr x nc have "dict_get row n 0 = c"
      by (auto simp: wf_acc_def list_all_iff dict_get_distinct)
    ultimately have "cell dd k n = c" by (simp add: cell_def)
    with cell_bounds [OF assms(1), of k n] row_total_le_grand_total [OF assms(1), of k] assms(2)
    have "\<bar>c\<bar> \<le> 2 ^ 53" by simp
    then show "case x of (n, c) \<Rightarrow> float_ok c" using nc by (simp add: float_ok_small)
  qed
  then show "case p of (k, r) \<Rightarrow> \<forall>x\<in>set r. case x of (n, c) \<Rightarrow> float_ok c"
    using kr by simp
qed

subsection \<open>Sums of counts\<close>

lemma sum_cells_row:
  fixes row :: "('k \<times> int) list"
  assumes "distinct (map fst row)" and "distinct cols" and "set (map fst row) \<subseteq> set cols"
  shows "sum_list (map (\<lambda>c. dict_get row c 0) cols) = sum_list (map snd row)"
proof -
  have "sum_list (map (\<lambda>c. dict_get row c 0) cols) = sum (\<lambda>c. dict_get row c 0) (set cols)"
    using assms(2) by (rule sum_list_distinct_conv_sum_set)
  also have "\<dots> = sum (\<lambda>c. dict_get row c 0) (set (map fst row))"
  proof (rule sum.mono_neutral_right)
    show "finite (set cols)" by simp
    show "set (map fst row) \<subseteq> set cols" by (rule assms(3))
    show "\<forall>i\<in>set cols - set (map fst row). dict_get row i 0 = 0"
      by (simp add: dict_get_absent)
  qed
  also have "\<dots> = sum_list (map (\<lambda>c. dict_get row c 0) (map fst row))"
    using assms(1) by (rule sum_list_distinct_conv_sum_set [symmetric])
  also have "\<dots> = sum_list (map snd row)"
  proof -
    have "map (\<lambda>c. dict_get row c 0) (map fst row) = map snd row"
      using assms(1) by (auto simp: dict_get_distinct)
    then show ?thesis by (rule arg_cong)
  qed
  finally show ?thesis .
qed

lemma row_keys_cols:
  assumes "wf_acc dd"
  shows "distinct (map fst (dict_get dd r []))"
    and "set (map fst (dict_get dd r [])) \<subseteq> set (col_keys dd)"
proof -
  have "dict_get dd r [] = [] \<or> (r, dict_get dd r []) \<in> set dd"
    by (rule dict_get_row_mem)
  then have "distinct (map fst (dict_get dd r []))
           \<and> set (map fst (dict_get dd r [])) \<subseteq> set (col_keys dd)"
  proof
    assume "dict_get dd r [] = []"
    then show ?thesis by simp
  next
    assume m: "(r, dict_get dd r []) \<in> set dd"
    with assms have "distinct (map fst (dict_get dd r []))"
      by (auto simp: wf_acc_def list_all_iff)
    moreover from m have "set (map fst (dict_get dd r [])) \<subseteq> set (col_keys dd)"
      by (force simp: col_keys_def)
    ultimately show ?thesis by simp
  qed
  then show "distinct (map fst (dict_get dd r []))"
    and "set (map fst (dict_get dd r [])) \<subseteq> set (col_keys dd)" by simp_all
qed

lemma row_sum_cells:
  assumes "wf_acc dd" and "distinct cols" and "set cols = set (col_keys dd)"
  shows "sum_list (map (\<lambda>c. cell dd r c) cols) = row_total dd r"
proof -
  have "set (map fst (dict_get dd r [])) \<subseteq> set cols"
    using row_keys_cols(2) [OF assms(1)] assms(3) by simp
  from sum_cells_row [OF row_keys_cols(1) [OF assms(1)] assms(2) this]
  show ?thesis by (simp add: cell_def row_total_def)
qed

lemma sum_list_of_int:
  "sum_list (map (\<lambda>c. real_of_int (f c)) xs) = real_of_int (sum_list (map f xs))"
  by (induction xs) simp_all

lemma grand_total_rows:
  assumes "distinct (map fst dd)" and "distinct rows" and "set rows = set (map fst dd)"
  shows "sum_list (map (row_total dd) rows) = grand_total dd"
proof -
  have "sum_list (map (row_total dd) rows) = sum (row_total dd) (set rows)"
    using assms(2) by (rule sum_list_distinct_conv_sum_set)
  also have "\<dots> = sum (row_total dd) (set (map fst dd))" by (simp only: assms(3))
  also have "\<dots> = sum_list (map (row_total dd) (map fst dd))"
    using assms(1) by (rule sum_list_distinct_conv_sum_set [symmetric])
  also have "\<dots> = grand_total dd"
  proof -
    have "map (row_total dd) (map fst dd) = map (\<lambda>(k, r). sum_list (map snd r)) dd"
      using assms(1) by (auto simp: row_total_def dict_get_distinct)
    then show ?thesis unfolding grand_total_def by (rule arg_cong)
  qed
  finally show ?thesis .
qed

lemma keys_Trial_add: "fst ` set (Trial_add nm r acc) = insert r (fst ` set acc)"
  by (simp add: Trial_add_eq dict_set_def dom_update)

lemma keys_add_all: "fst ` set (add_all ps acc) = fst ` set acc \<union> snd ` set ps"
proof (induction ps arbitrary: acc)
  case Nil
  show ?case by (simp add: add_all_Nil)
next
  case (Cons p ps)
  obtain nm r where p: "p = (nm, r)" by (cases p)
  show ?case unfolding p add_all_Cons Cons.IH keys_Trial_add by auto
qed

lemma wf_acc_Nil: "wf_acc []"
  by (simp add: wf_acc_def)

lemma row_total_Nil: "row_total [] r = 0"
  by (simp add: row_total_def dict_get_def)

lemma grand_total_Nil: "grand_total [] = 0"
  by (simp add: grand_total_def)

lemma run_fresh_results:
  assumes "run n t g = (res, t', g')" and "results t = []"
  shows "results t' = add_all (run_log (nat n) t g) []"
  using assms run_loop_results [of "nat n" t g] by (simp add: run_def)

lemma sum_list_ge_one:
  fixes xs :: "int list"
  shows "xs \<noteq> [] \<Longrightarrow> \<forall>x\<in>set xs. 1 \<le> x \<Longrightarrow> 1 \<le> sum_list xs"
proof (induction xs)
  case Nil
  then show ?case by simp
next
  case (Cons x xs)
  have "0 \<le> sum_list xs" by (rule sum_list_nonneg) (use Cons.prems in force)
  moreover have "1 \<le> x" using Cons.prems by simp
  ultimately show ?case by simp
qed

lemma row_total_pos:
  assumes "rows_nonempty dd" and "counts_ge 1 dd" and "r \<in> fst ` set dd"
  shows "1 \<le> row_total dd r"
proof -
  from assms(3) have "map_of dd r \<noteq> None" by (simp add: map_of_eq_None_iff)
  then have m: "(r, dict_get dd r []) \<in> set dd"
    by (auto simp: dict_get_def dest: map_of_SomeD)
  with assms(1) have "dict_get dd r [] \<noteq> []"
    by (auto simp: rows_nonempty_def list_all_iff)
  moreover have "\<forall>x\<in>set (map snd (dict_get dd r [])). 1 \<le> x"
  proof -
    from m assms(2) have "list_all (\<lambda>(n, c). 1 \<le> c) (dict_get dd r [])"
      unfolding counts_ge_def list_all_iff by fastforce
    then show ?thesis unfolding list_all_iff by fastforce
  qed
  ultimately show ?thesis unfolding row_total_def by (intro sum_list_ge_one) simp_all
qed

lemma rows_nonempty_Nil: "rows_nonempty []"
  by (simp add: rows_nonempty_def)

lemma counts_ge_Nil: "counts_ge m []"
  by (simp add: counts_ge_def)


lemma table_exact:
  assumes "wf_acc dd" and "counts_ge 0 dd" and "grand_total dd \<le> 2 ^ 53"
    and "dictsToTbl dd = Inr (ret, rowNames, colNames)"
  shows "ret = map (\<lambda>r. map (\<lambda>c. real_of_int (cell dd r c)) colNames) rowNames"
  using dictsToTbl_returns(1) [OF assms(1,4)] by (simp add: cell_exact [OF assms(2,3)])

lemma table_row_sum:
  assumes "wf_acc dd" and "counts_ge 0 dd" and "grand_total dd \<le> 2 ^ 53"
    and "dictsToTbl dd = Inr (ret, rowNames, colNames)" and "r < length rowNames"
  shows "sum_list (ret ! r) = real_of_int (row_total dd (rowNames ! r))"
proof -
  have "ret ! r = map (\<lambda>c. real_of_int (cell dd (rowNames ! r) c)) colNames"
    using table_exact [OF assms(1-4)] assms(5) by simp
  then have "sum_list (ret ! r) = real_of_int (sum_list (map (cell dd (rowNames ! r)) colNames))"
    by (simp add: sum_list_of_int)
  also have "sum_list (map (cell dd (rowNames ! r)) colNames) = row_total dd (rowNames ! r)"
    using row_sum_cells [OF assms(1) dictsToTbl_returns(6,5) [OF assms(1,4)]] .
  finally show ?thesis .
qed

lemma table_sum:
  assumes "wf_acc dd" and "counts_ge 0 dd" and "grand_total dd \<le> 2 ^ 53"
    and "dictsToTbl dd = Inr (ret, rowNames, colNames)"
  shows "sum_list (map sum_list ret) = real_of_int (grand_total dd)"
proof -
  have l: "length ret = length rowNames"
    using dictsToTbl_returns(1) [OF assms(1,4)] by simp
  have "map sum_list ret = map (\<lambda>r. real_of_int (row_total dd r)) rowNames"
  proof (rule nth_equalityI)
    show "length (map sum_list ret) = length (map (\<lambda>r. real_of_int (row_total dd r)) rowNames)"
      using l by simp
  next
    fix i assume "i < length (map sum_list ret)"
    then have i: "i < length rowNames" using l by simp
    from table_row_sum [OF assms i] i l
    show "map sum_list ret ! i = map (\<lambda>r. real_of_int (row_total dd r)) rowNames ! i"
      by simp
  qed
  then have "sum_list (map sum_list ret) = real_of_int (sum_list (map (row_total dd) rowNames))"
    by (simp add: sum_list_of_int)
  also have "sum_list (map (row_total dd) rowNames) = grand_total dd"
    using assms(1) dictsToTbl_returns(2,3) [OF assms(1,4)]
    by (intro grand_total_rows) (simp_all add: wf_acc_def)
  finally show ?thesis .
qed

section \<open>Sums of floats\<close>

lemma subset_sum_le:
  fixes cs :: "nat list"
  assumes "distinct js" and "\<forall>j\<in>set js. j < length cs"
  shows "sum_list (map ((!) cs) js) \<le> sum_list cs"
proof -
  have "sum_list (map ((!) cs) js) = sum ((!) cs) (set js)"
    using assms(1) by (rule sum_list_distinct_conv_sum_set)
  also have "\<dots> \<le> sum ((!) cs) {0..<length cs}"
    using assms(2) by (intro sum_mono2) auto
  also have "\<dots> = sum_list cs" by (simp add: sum_list_sum_nth)
  finally show ?thesis .
qed

lemma fl_nat:
  assumes "N \<le> 2 ^ 53"
  shows "fl (real N) = Finite (real N)"
proof -
  from assms have "int N \<le> 2 ^ 53" by (metis of_nat_le_iff of_nat_numeral of_nat_power)
  then have "\<bar>int N\<bar> \<le> 2 ^ 53" by simp
  then have r: "r64 (real_of_int (int N)) = real_of_int (int N)" by (rule r64_int)
  have "real N \<le> 2 ^ 53" using assms by (metis of_nat_le_iff of_nat_numeral of_nat_power)
  also have "(2::real) ^ 53 < 2 ^ 1024" by simp
  finally have "real N < 2 ^ 1024" .
  moreover have "- (2 ^ 1024) < real N"
    by (rule less_le_trans [of _ 0]) simp_all
  ultimately show ?thesis using r by (simp add: fl_def Let_def)
qed

lemma fsum_exact:
  assumes "distinct (elems t)" and "\<forall>i\<in>set (elems t). i < length cs"
    and "sum_list cs \<le> 2 ^ 53"
  shows "fsum t (map real cs) = Finite (real (sum_list (map ((!) cs) (elems t))))"
  using assms(1,2)
proof (induction t)
  case (Elem i)
  then show ?case by simp
next
  case (Plus a b)
  from Plus.prems have a: "fsum a (map real cs) = Finite (real (sum_list (map ((!) cs) (elems a))))"
    by (intro Plus.IH) simp_all
  from Plus.prems have b: "fsum b (map real cs) = Finite (real (sum_list (map ((!) cs) (elems b))))"
    by (intro Plus.IH) simp_all
  have "sum_list (map ((!) cs) (elems (Plus a b))) \<le> sum_list cs"
    using Plus.prems by (intro subset_sum_le) simp_all
  with assms(3) have "sum_list (map ((!) cs) (elems (Plus a b))) \<le> 2 ^ 53" by simp
  from fl_nat [OF this] show ?case using a b by simp
qed

lemma elems_all:
  assumes "sort (elems t) = [0..<n]"
  shows "distinct (elems t)" and "set (elems t) = {0..<n}"
proof -
  have "distinct (sort (elems t))" by (simp only: assms distinct_upt)
  then show "distinct (elems t)" by simp
  have "set (sort (elems t)) = {0..<n}" by (simp only: assms set_upt)
  then show "set (elems t) = {0..<n}" by simp
qed

lemma sum_all_elems:
  fixes cs :: "nat list"
  assumes "sort (elems t) = [0..<length cs]"
  shows "sum_list (map ((!) cs) (elems t)) = sum_list cs"
proof -
  have "sum_list (map ((!) cs) (elems t)) = sum ((!) cs) (set (elems t))"
    using elems_all(1) [OF assms] by (rule sum_list_distinct_conv_sum_set)
  also have "\<dots> = sum ((!) cs) {0..<length cs}" by (simp only: elems_all(2) [OF assms])
  also have "\<dots> = sum_list cs" by (simp add: sum_list_sum_nth)
  finally show ?thesis .
qed

lemma np_sum_exact:
  assumes "valid_order ord" and "sum_list cs \<le> 2 ^ 53"
  shows "np_sum ord (map real cs) = Finite (real (sum_list cs))"
proof (cases "cs = []")
  case True
  then show ?thesis by (simp add: np_sum_def)
next
  case False
  then have s: "sort (elems (ord (length cs))) = [0..<length cs]"
    using assms(1) by (simp add: valid_order_def)
  have "fsum (ord (length cs)) (map real cs)
        = Finite (real (sum_list (map ((!) cs) (elems (ord (length cs))))))"
    using elems_all [OF s] assms(2) by (intro fsum_exact) simp_all
  then show ?thesis using False by (simp add: np_sum_def sum_all_elems [OF s])
qed

lemma fl_nonneg:
  assumes "0 \<le> y"
  shows "fl y = PosInf \<or> fl y = Finite (r64 y)"
proof -
  have "0 \<le> r64 y" using assms by (rule r64_nonneg)
  moreover have "- (2 ^ 1024) < (0::real)" by simp
  ultimately have "\<not> r64 y \<le> - (2 ^ 1024)" by linarith
  then show ?thesis by (simp add: fl_def Let_def)
qed

lemma fsum_pos:
  assumes "\<forall>i\<in>set (elems t). 0 \<le> xs ! i"
  shows "fsum t xs = PosInf
       \<or> (\<exists>s. fsum t xs = Finite s \<and> 0 \<le> s \<and> ((\<exists>i\<in>set (elems t). 1 \<le> xs ! i) \<longrightarrow> 1 \<le> s))"
  using assms
proof (induction t)
  case (Elem i)
  then show ?case by simp
next
  case (Plus a b)
  from Plus.prems have pa: "\<forall>i\<in>set (elems a). 0 \<le> xs ! i" and pb: "\<forall>i\<in>set (elems b). 0 \<le> xs ! i"
    by simp_all
  note A = Plus.IH(1) [OF pa] and B = Plus.IH(2) [OF pb]
  show ?case
  proof (cases "fsum a xs = PosInf \<or> fsum b xs = PosInf")
    case True
    with A B have "fsum (Plus a b) xs = PosInf" by auto
    then show ?thesis by simp
  next
    case False
    with A B obtain sa sb
      where a: "fsum a xs = Finite sa" "0 \<le> sa" "(\<exists>i\<in>set (elems a). 1 \<le> xs ! i) \<longrightarrow> 1 \<le> sa"
        and b: "fsum b xs = Finite sb" "0 \<le> sb" "(\<exists>i\<in>set (elems b). 1 \<le> xs ! i) \<longrightarrow> 1 \<le> sb"
      by blast
    have s: "fsum (Plus a b) xs = fl (sa + sb)" using a(1) b(1) by simp
    have nn: "0 \<le> sa + sb" using a(2) b(2) by simp
    from fl_nonneg [OF nn] show ?thesis
    proof
      assume "fl (sa + sb) = PosInf"
      with s show ?thesis by simp
    next
      assume f: "fl (sa + sb) = Finite (r64 (sa + sb))"
      have "(\<exists>i\<in>set (elems (Plus a b)). 1 \<le> xs ! i) \<longrightarrow> 1 \<le> r64 (sa + sb)"
      proof
        assume "\<exists>i\<in>set (elems (Plus a b)). 1 \<le> xs ! i"
        then have "1 \<le> sa \<or> 1 \<le> sb" using a(3) b(3) by auto
        with a(2) b(2) have "1 \<le> sa + sb" by linarith
        then show "1 \<le> r64 (sa + sb)" by (rule r64_ge_one)
      qed
      with s f r64_nonneg [OF nn] show ?thesis by simp
    qed
  qed
qed

lemma elems_seq_order: "elems (seq_order (Suc n)) = [0..<Suc n]"
  by (induction n) simp_all

lemma valid_seq_order: "valid_order seq_order"
  unfolding valid_order_def
proof (intro allI impI)
  fix n :: nat assume "0 < n"
  then obtain m where "n = Suc m" by (cases n) auto
  then show "sort (elems (seq_order n)) = [0..<n]"
    by (simp only: elems_seq_order sort_upt)
qed

lemma r64_finite_le_max:
  assumes "0 \<le> y" and "r64 y < 2 ^ 1024"
  shows "r64 y \<le> max_float"
proof -
  let ?q = "(2::real) powi (expo y - 52)"
  have e: "expo y \<le> 1023"
  proof (rule ccontr)
    assume "\<not> expo y \<le> 1023"
    with expo_le [of y] have e: "expo y = 1024" by simp
    have "\<not> \<bar>y\<bar> < 2 powi (- 1021)" using expo_small [of y] e by auto
    moreover have "(2::real) powi (- 1022) \<le> 2 powi (- 1021)"
      by (intro power_int_increasing) simp_all
    ultimately have "2 powi (- 1022) \<le> \<bar>y\<bar>" by linarith
    then have "2 powi (expo y) \<le> \<bar>y\<bar>" by (rule expo_lower)
    with assms(1) have "2 powi (expo y) \<le> y" by simp
    from r64_ge_powi [OF assms(1) this] e assms(2) show False by simp
  qed
  show ?thesis
  proof (cases "expo y = 1023")
    case True
    have q: "?q = 2 ^ 971" using True by simp
    have "real_of_int (rhe (y / ?q)) * 2 ^ 971 < 2 ^ 53 * 2 ^ 971"
      using assms(2) unfolding r64_def Let_def q by simp
    then have "real_of_int (rhe (y / ?q)) < real_of_int (2 ^ 53)" by simp
    then have "rhe (y / ?q) < 2 ^ 53" by (simp only: of_int_less_iff)
    then have "rhe (y / ?q) \<le> 2 ^ 53 - 1" by simp
    then have "real_of_int (rhe (y / ?q)) \<le> real_of_int (2 ^ 53 - 1)" by (rule of_int_le_real)
    then have "of_int (rhe (y / ?q)) * ?q \<le> real_of_int (2 ^ 53 - 1) * ?q"
      by (intro mult_right_mono) simp_all
    then show ?thesis unfolding r64_def Let_def q max_float_def by (simp add: algebra_simps)
  next
    case False
    with e have e2: "expo y + 1 \<le> 1023" by simp
    have "r64 y \<le> 2 powi (expo y + 1)" using assms(1) e by (intro r64_le_powi) simp_all
    also have "\<dots> \<le> 2 powi 1023" using e2 by (intro power_int_increasing) simp_all
    also have "\<dots> \<le> max_float" by (simp add: max_float_def)
    finally show ?thesis .
  qed
qed

lemma fdiv_finite:
  assumes "0 \<le> x" and "x \<le> max_float" and "s = PosInf \<or> (\<exists>v. s = Finite v \<and> 1 \<le> v)"
  shows "\<exists>y. fdiv x s = Finite y \<and> 0 \<le> y"
  using assms(3)
proof
  assume "s = PosInf"
  then show ?thesis by simp
next
  assume "\<exists>v. s = Finite v \<and> 1 \<le> v"
  then obtain v where v: "s = Finite v" "1 \<le> v" by blast
  have q0: "0 \<le> x / v" using assms(1) v(2) by simp
  have "x / v \<le> x / 1" using assms(1) v(2) by (intro divide_left_mono) simp_all
  with assms(2) have "x / v \<le> max_float" by simp
  from r64_le_max [OF q0 this] have "r64 (x / v) < 2 ^ 1024" by (simp add: max_float_def)
  moreover have "0 \<le> r64 (x / v)" using q0 by (rule r64_nonneg)
  ultimately show ?thesis using v by (simp add: fl_def Let_def)
qed

text \<open>
  Labels that cannot be sorted arise from the program itself: a trial over a die and a
  fair coin records an integer and a string outcome under an integer and a string name.
\<close>

lemma mixed_trial_accumulator:
  "results (fst (snd (run 2 (UniformSelectionTrial_init [Die_init 6 None, Coin_init fmt 0])
                        \<lparr>tape = (\<lambda>i. i div 2), pos = 0\<rparr>)))
     = [(PInt 1, [(PInt 6, 1)]), (PStr ''Heads'', [(PStr ''FairCoin'', 1)])]"
proof -
  define g where "g k = \<lparr>tape = (\<lambda>i. i div 2), pos = k\<rparr>" for k
  define d where "d = Die 6 (PInt 6)"
  define c where "c = Coin 0 (PStr ''FairCoin'')"
  have s1: "chooseSource \<lparr>results = acc, sources = [d, c]\<rparr> (g 0) = (Inr d, g (Suc 0))" for acc
    by (simp add: g_def chooseSource_def choice_def next_raw_def)
  have s2: "draw d (g (Suc 0)) = (Inr (PInt 1), g 2)"
    by (simp add: g_def d_def randint_def next_raw_def)
  have s3: "chooseSource \<lparr>results = acc, sources = [d, c]\<rparr> (g 2) = (Inr c, g 3)" for acc
    by (simp add: g_def chooseSource_def choice_def next_raw_def)
  have s4: "draw c (g 3) = (Inr (PStr ''Heads''), g 4)"
    by (simp add: g_def c_def uniform_def random_unit_def next_raw_def)
  have n: "nat 2 = Suc (Suc 0)" by simp
  have "results (fst (snd (run_loop (Suc (Suc 0)) \<lparr>results = [], sources = [d, c]\<rparr> (g 0))))
        = Trial_add (name c) (PStr ''Heads'') (Trial_add (name d) (PInt 1) [])"
    by (simp add: s1 s2 s3 s4)
  also have "\<dots> = [(PInt 1, [(PInt 6, 1)]), (PStr ''Heads'', [(PStr ''FairCoin'', 1)])]"
    by (simp add: c_def d_def Trial_add_def dict_set_def dict_get_def)
  finally show ?thesis
    unfolding run_def n by (simp add: UniformSelectionTrial_init_def Die_init_def Coin_init_def g_def d_def c_def)
qed

subsection \<open>Tables of one cell\<close>

lemma float_of_int_small: "\<bar>v\<bar> \<le> 2 ^ 53 \<Longrightarrow> float_of_int v = Inr (real_of_int v)"
  by (simp add: float_of_int_ok float_ok_small r64_int)

lemma float_of_int_big: "float_of_int 9007199254740993 = Inr 9007199254740992"
proof -
  have "float_ok 9007199254740993" by (simp add: float_ok_def r64_big)
  then show ?thesis by (simp add: float_of_int_ok r64_big)
qed

lemma float_of_int_overflows: "float_of_int (2 ^ 1024) = Inl OverflowError"
proof -
  have "(2::real) ^ 1024 \<le> r64 (2 ^ 1024)" by (rule r64_overflow) simp
  then have "\<not> float_ok (2 ^ 1024)" by (simp add: float_ok_def)
  then show ?thesis by (rule float_of_int_overflow)
qed

lemma np_sum_counts:
  assumes "valid_order ord" and "\<forall>x\<in>set xs. \<exists>k::nat. x = real k" and "sum_list xs \<le> 2 ^ 53"
  shows "np_sum ord xs = Finite (sum_list xs)"
proof -
  define cs where "cs = map (\<lambda>x. nat \<lfloor>x\<rfloor>) xs"
  have xs: "xs = map real cs"
    unfolding cs_def using assms(2) by (induction xs) auto
  have eq: "real (sum_list cs) = sum_list (map real cs)" by (induction cs) simp_all
  with assms(3) have "real (sum_list cs) \<le> real (2 ^ 53)" by (simp add: xs)
  then have "sum_list cs \<le> 2 ^ 53" by (simp only: of_nat_le_iff)
  from np_sum_exact [OF assms(1) this] show ?thesis
    unfolding xs by (simp only: eq)
qed

lemma run_loop_one_die:
  "run_loop n \<lparr>results = acc, sources = [Die 1 (PInt 1)]\<rparr> g =
     (Inr (), \<lparr>results = add_all (replicate n (PInt 1, PInt 1)) acc, sources = [Die 1 (PInt 1)]\<rparr>,
      g\<lparr>pos := pos g + 2 * n\<rparr>)"
proof (induction n arbitrary: acc g)
  case 0
  show ?case by (simp add: add_all_Nil)
next
  case (Suc n)
  have c: "chooseSource \<lparr>results = acc, sources = [Die 1 (PInt 1)]\<rparr> g
           = (Inr (Die 1 (PInt 1)), g\<lparr>pos := Suc (pos g)\<rparr>)"
    by (simp add: chooseSource_def choice_def next_raw_def)
  have d: "draw (Die 1 (PInt 1)) (g\<lparr>pos := Suc (pos g)\<rparr>)
           = (Inr (PInt 1), g\<lparr>pos := Suc (Suc (pos g))\<rparr>)"
    by (simp add: randint_def next_raw_def)
  show ?case by (simp add: c d Suc.IH add_all_Cons del: draw.simps)
qed

lemma add_all_one_cell:
  "add_all (replicate n (PInt 1, PInt 1)) [(PInt 1, [(PInt 1, k)])] = [(PInt 1, [(PInt 1, k + int n)])]"
proof (induction n arbitrary: k)
  case 0
  show ?case by (simp add: add_all_Nil)
next
  case (Suc n)
  have "Trial_add (PInt 1) (PInt 1) [(PInt 1, [(PInt 1, k)])] = [(PInt 1, [(PInt 1, k + 1)])]"
    by (simp add: Trial_add_def dict_set_def dict_get_def)
  then show ?case by (simp add: add_all_Cons Suc.IH)
qed

lemma add_all_one_die:
  "add_all (replicate (Suc n) (PInt 1, PInt 1)) [] = [(PInt 1, [(PInt 1, 1 + int n)])]"
proof -
  have "Trial_add (PInt 1) (PInt 1) [] = [(PInt 1, [(PInt 1, 1)])]"
    by (simp add: Trial_add_def dict_set_def dict_get_def)
  then show ?thesis by (simp add: add_all_Cons add_all_one_cell)
qed

lemma run_one_die_big:
  "fst (run 9007199254740993 (UniformSelectionTrial_init [Die_init 1 None]) g) = Inr ()"
  "results (fst (snd (run 9007199254740993 (UniformSelectionTrial_init [Die_init 1 None]) g)))
     = [(PInt 1, [(PInt 1, 9007199254740993)])]"
proof -
  have a: "add_all (replicate 9007199254740993 (PInt 1, PInt 1)) []
        = [(PInt 1, [(PInt 1, 9007199254740993)])]"
    using add_all_one_die [of 9007199254740992] by simp
  show "fst (run 9007199254740993 (UniformSelectionTrial_init [Die_init 1 None]) g) = Inr ()"
    by (simp add: run_def UniformSelectionTrial_init_def Die_init_def run_loop_one_die)
  show "results (fst (snd (run 9007199254740993 (UniformSelectionTrial_init [Die_init 1 None]) g)))
     = [(PInt 1, [(PInt 1, 9007199254740993)])]"
    by (simp add: run_def UniformSelectionTrial_init_def Die_init_def run_loop_one_die a)
qed

lemma table_one_cell:
  assumes "float_of_int v = Inr y"
  shows "dictsToTbl [(PInt a, [(PInt b, v)])] = Inr ([[y]], [PInt a], [PInt b])"
  using assms by (simp add: dictsToTbl_def sorted_py_def set_update_def zeros_def)

lemma table_one_cell_overflow:
  assumes "float_of_int v = Inl OverflowError"
  shows "dictsToTbl [(PInt a, [(PInt b, v)])] = Inl OverflowError"
  using assms by (simp add: dictsToTbl_def sorted_py_def set_update_def zeros_def)

text \<open>
  C2, as amended: for a dictionary of dictionaries whose outcomes are all integers or all
  strings, whose source names are so too, and whose counts fit a float, \<^verbatim>\<open>dictsToTbl\<close>
  returns the outcomes in ascending order, the source names of all rows in ascending
  order, and the matrix of floats that holds at row \<open>r\<close> and column \<open>c\<close> the float
  nearest to the count stored for that outcome and that source name, or zero where none
  is stored. The float is the count itself for every count up to \<open>2^53\<close> in magnitude.
  When the labels can be sorted and a count is too large for a float it raises
  \<^verbatim>\<open>OverflowError\<close>; when the labels cannot be sorted it raises \<^verbatim>\<open>TypeError\<close>. The
  counterexample is the accumulator of a die and a coin, the count \<open>2^53 + 1\<close>, which
  the matrix holds as \<open>2^53\<close>, and the count \<open>2^1024\<close>.
\<close>

theorem dictsToTbl_table:
  assumes "wf_acc dd"
  shows "(comparable (map fst dd) \<and> comparable (col_keys dd) \<and> counts_ok dd \<longrightarrow>
          (\<exists>ret rowNames colNames. dictsToTbl dd = Inr (ret, rowNames, colNames)
            \<and> set rowNames = set (map fst dd) \<and> sorted_wrt py_less rowNames
            \<and> set colNames = set (col_keys dd) \<and> sorted_wrt py_less colNames
            \<and> length ret = length rowNames
            \<and> (\<forall>r<length rowNames. length (ret ! r) = length colNames
                \<and> (\<forall>c<length colNames. ret ! r ! c =
                     (case map_of dd (rowNames ! r) of
                        None \<Rightarrow> 0
                      | Some row \<Rightarrow> (case map_of row (colNames ! c) of
                                       None \<Rightarrow> 0 | Some v \<Rightarrow> r64 (real_of_int v)))))))
       \<and> (\<forall>v. \<bar>v\<bar> \<le> 2 ^ 53 \<longrightarrow> float_ok v \<and> r64 (real_of_int v) = real_of_int v)
       \<and> (comparable (map fst dd) \<and> comparable (col_keys dd) \<and> \<not> counts_ok dd \<longrightarrow>
            dictsToTbl dd = Inl OverflowError)
       \<and> (\<not> (comparable (map fst dd) \<and> comparable (col_keys dd)) \<longrightarrow>
            dictsToTbl dd = Inl TypeError)"
proof (intro conjI impI allI)
  assume "comparable (map fst dd) \<and> comparable (col_keys dd) \<and> counts_ok dd"
  then have c: "comparable (map fst dd)" "comparable (col_keys dd)" "counts_ok dd" by simp_all
  from dictsToTbl_spec [OF assms c] obtain rowNames colNames
    where d: "dictsToTbl dd =
             Inr (map (\<lambda>r. map (\<lambda>c. r64 (real_of_int (cell dd r c))) colNames) rowNames,
                  rowNames, colNames)"
      and p: "set rowNames = set (map fst dd)" "sorted_wrt py_less rowNames"
        "set colNames = set (col_keys dd)" "sorted_wrt py_less colNames"
    by blast
  let ?ret = "map (\<lambda>r. map (\<lambda>c. r64 (real_of_int (cell dd r c))) colNames) rowNames"
  have "length ?ret = length rowNames
      \<and> (\<forall>r<length rowNames. length (?ret ! r) = length colNames
            \<and> (\<forall>c<length colNames. ?ret ! r ! c =
                     (case map_of dd (rowNames ! r) of
                        None \<Rightarrow> 0
                      | Some row \<Rightarrow> (case map_of row (colNames ! c) of
                                       None \<Rightarrow> 0 | Some v \<Rightarrow> r64 (real_of_int v)))))"
    by (simp add: cell_map_of)
  with d p show "\<exists>ret rowNames colNames. dictsToTbl dd = Inr (ret, rowNames, colNames)
            \<and> set rowNames = set (map fst dd) \<and> sorted_wrt py_less rowNames
            \<and> set colNames = set (col_keys dd) \<and> sorted_wrt py_less colNames
            \<and> length ret = length rowNames
            \<and> (\<forall>r<length rowNames. length (ret ! r) = length colNames
                \<and> (\<forall>c<length colNames. ret ! r ! c =
                     (case map_of dd (rowNames ! r) of
                        None \<Rightarrow> 0
                      | Some row \<Rightarrow> (case map_of row (colNames ! c) of
                                       None \<Rightarrow> 0 | Some v \<Rightarrow> r64 (real_of_int v)))))"
    by blast
next
  fix v :: int assume "\<bar>v\<bar> \<le> 2 ^ 53"
  then show "float_ok v" and "r64 (real_of_int v) = real_of_int v"
    by (simp_all add: float_ok_small r64_int)
next
  assume "comparable (map fst dd) \<and> comparable (col_keys dd) \<and> \<not> counts_ok dd"
  then show "dictsToTbl dd = Inl OverflowError"
    using dictsToTbl_overflow [OF assms] by blast
next
  assume "\<not> (comparable (map fst dd) \<and> comparable (col_keys dd))"
  then show "dictsToTbl dd = Inl TypeError" by (rule dictsToTbl_raises)
qed

lemma table_example:
  "dictsToTbl [(PInt 2, [(PInt 6, 2)]), (PInt 1, [(PInt 4, 1), (PInt 6, 3)])]
     = Inr ([[1, 3], [0, 2]], [PInt 1, PInt 2], [PInt 4, PInt 6])"
  by (simp add: dictsToTbl_def sorted_py_def set_update_def zeros_def float_of_int_small)

theorem dictsToTbl_table_witness:
  "wf_acc [(PInt 2, [(PInt 6, 2)]), (PInt 1, [(PInt 4, 1), (PInt 6, 3)])]
   \<and> comparable (map fst [(PInt 2, [(PInt 6, 2)]), (PInt 1, [(PInt 4, 1), (PInt 6, 3)])])
   \<and> comparable (col_keys [(PInt 2, [(PInt 6, 2)]), (PInt 1, [(PInt 4, 1), (PInt 6, 3)])])
   \<and> counts_ok [(PInt 2, [(PInt 6, 2)]), (PInt 1, [(PInt 4, 1), (PInt 6, 3)])]
   \<and> dictsToTbl [(PInt 2, [(PInt 6, 2)]), (PInt 1, [(PInt 4, 1), (PInt 6, 3)])]
       = Inr ([[1, 3], [0, 2]], [PInt 1, PInt 2], [PInt 4, PInt 6])
   \<and> (\<exists>ret rowNames colNames.
         dictsToTbl [(PInt 2, [(PInt 6, 2)]), (PInt 1, [(PInt 4, 1), (PInt 6, 3)])]
           = Inr (ret, rowNames, colNames)
         \<and> sorted_wrt py_less rowNames \<and> sorted_wrt py_less colNames
         \<and> length ret = length rowNames)"
proof -
  let ?dd = "[(PInt 2, [(PInt 6, 2)]), (PInt 1, [(PInt 4, 1), (PInt 6, 3)])]"
  have w: "wf_acc ?dd" by (simp add: wf_acc_def)
  have c1: "comparable (map fst ?dd)" by (simp add: comparable_def)
  have c2: "comparable (col_keys ?dd)" by (simp add: comparable_def col_keys_def)
  have c3: "counts_ok ?dd" by (simp add: counts_ok_def float_ok_small)
  have e: "dictsToTbl ?dd = Inr ([[1, 3], [0, 2]], [PInt 1, PInt 2], [PInt 4, PInt 6])"
    by (rule table_example)
  have "\<exists>ret rowNames colNames. dictsToTbl ?dd = Inr (ret, rowNames, colNames)
         \<and> sorted_wrt py_less rowNames \<and> sorted_wrt py_less colNames
         \<and> length ret = length rowNames"
    using dictsToTbl_table [OF w] c1 c2 c3 by blast
  with w c1 c2 c3 e show ?thesis by blast
qed

theorem dictsToTbl_table_counterexample:
  "wf_acc [(PInt 1, [(PInt 6, 1)]), (PStr ''Heads'', [(PStr ''FairCoin'', 1)])]
   \<and> dictsToTbl [(PInt 1, [(PInt 6, 1)]), (PStr ''Heads'', [(PStr ''FairCoin'', 1)])]
       = Inl TypeError
   \<and> dictsToTbl [(PInt 1, [(PInt 6, 9007199254740993)])]
       = Inr ([[9007199254740992]], [PInt 1], [PInt 6])
   \<and> dictsToTbl [(PInt 1, [(PInt 6, 2 ^ 1024)])] = Inl OverflowError"
proof -
  have a: "wf_acc [(PInt 1, [(PInt 6, 1)]), (PStr ''Heads'', [(PStr ''FairCoin'', 1)])]"
    by (simp add: wf_acc_def)
  have b: "dictsToTbl [(PInt 1, [(PInt 6, 1)]), (PStr ''Heads'', [(PStr ''FairCoin'', 1)])]
       = Inl TypeError"
    by (simp add: dictsToTbl_def sorted_py_def)
  have c: "dictsToTbl [(PInt 1, [(PInt 6, 9007199254740993)])]
       = Inr ([[9007199254740992]], [PInt 1], [PInt 6])"
    using float_of_int_big by (rule table_one_cell)
  have d: "dictsToTbl [(PInt 1, [(PInt 6, 2 ^ 1024)])] = Inl OverflowError"
    using float_of_int_overflows by (rule table_one_cell_overflow)
  from a b c d show ?thesis by blast
qed

lemma counts_ge_mono: "m \<le> k \<Longrightarrow> counts_ge k dd \<Longrightarrow> counts_ge m dd"
  unfolding counts_ge_def list_all_iff by fastforce

lemma cells_are_counts:
  assumes "counts_ge 0 dd"
  shows "\<exists>k::nat. real_of_int (cell dd r c) = real k"
proof -
  have "0 \<le> cell dd r c" using assms by (rule cell_bounds)
  then have "real_of_int (cell dd r c) = real (nat (cell dd r c))" by simp
  then show ?thesis by blast
qed

lemma sum_list_concat_real:
  fixes xss :: "real list list"
  shows "sum_list (concat xss) = sum_list (map sum_list xss)"
  by (induction xss) simp_all

text \<open>
  C3, as amended: when a run of \<open>n\<close> draws, \<open>0 \<le> n \<le> 2^53\<close>, on a fresh trial has
  returned, \<^verbatim>\<open>dictsToTbl\<close> returns a table of its accumulator if the labels can be
  sorted, and in every table it returns the row labels are the outcomes drawn, the sum of
  each row is the number of draws with that row's outcome, and the sum of the whole
  matrix is \<open>n\<close>: as sums of the numbers that the floats denote, and as the floats
  that numpy computes, in whatever order it adds. The counterexample is a run of
  \<open>2^53 + 1\<close> draws of a die with one side: the table holds \<open>2^53\<close>.
\<close>

theorem table_sums:
  assumes "run n t g = (Inr (), t', g')" and "0 \<le> n" and "n \<le> 2 ^ 53" and "results t = []"
  shows "(comparable (map fst (results t')) \<and> comparable (col_keys (results t')) \<longrightarrow>
            (\<exists>ret rowNames colNames. dictsToTbl (results t') = Inr (ret, rowNames, colNames)))
       \<and> (\<forall>ret rowNames colNames.
             dictsToTbl (results t') = Inr (ret, rowNames, colNames) \<longrightarrow>
               length ret = length rowNames
             \<and> set rowNames = snd ` set (run_log (nat n) t g)
             \<and> (\<forall>r<length rowNames.
                   sum_list (ret ! r) =
                   real (length (filter (\<lambda>(nm, x). x = rowNames ! r) (run_log (nat n) t g)))
                 \<and> (valid_order ord \<longrightarrow>
                      np_sum ord (ret ! r) =
                      Finite (real (length (filter (\<lambda>(nm, x). x = rowNames ! r)
                                              (run_log (nat n) t g))))))
             \<and> sum_list (map sum_list ret) = real_of_int n
             \<and> (valid_order ord \<longrightarrow> np_sum ord (concat ret) = Finite (real_of_int n)))"
proof (intro conjI allI impI)
  let ?ps = "run_log (nat n) t g"
  have r: "results t' = add_all ?ps []" using assms(1,4) by (rule run_fresh_results)
  have wf: "wf_acc (results t')" unfolding r by (simp add: wf_acc_add_all wf_acc_Nil)
  have ge: "counts_ge 0 (results t')" unfolding r by (simp add: counts_ge_add_all counts_ge_Nil)
  have len: "length ?ps = nat n"
    using assms(1) by (intro run_loop_length) (simp add: run_def)
  have gt: "grand_total (results t') = n"
    using len assms(2) by (simp add: r grand_total_add_all grand_total_Nil)
  have small: "grand_total (results t') \<le> 2 ^ 53" using gt assms(3) by simp
  have ok: "counts_ok (results t')" using ge small wf by (rule counts_ok_small)
  {
    assume "comparable (map fst (results t')) \<and> comparable (col_keys (results t'))"
    then have "comparable (map fst (results t'))" and "comparable (col_keys (results t'))"
      by simp_all
    from dictsToTbl_spec [OF wf this ok]
    show "\<exists>ret rowNames colNames. dictsToTbl (results t') = Inr (ret, rowNames, colNames)"
      by blast
  }
  fix ret rowNames colNames
  assume d: "dictsToTbl (results t') = Inr (ret, rowNames, colNames)"
  have ex: "ret = map (\<lambda>r. map (\<lambda>c. real_of_int (cell (results t') r c)) colNames) rowNames"
    using wf ge small d by (rule table_exact)
  show "length ret = length rowNames" using ex by simp
  show "set rowNames = snd ` set ?ps"
    using dictsToTbl_returns(2) [OF wf d] keys_add_all [of ?ps "[]"] by (simp add: r)
  show total: "sum_list (map sum_list ret) = real_of_int n"
    using table_sum [OF wf ge small d] gt by simp
  {
    assume v: "valid_order ord"
    have "\<forall>x\<in>set (concat ret). \<exists>k::nat. x = real k"
      unfolding ex using cells_are_counts [OF ge] by auto
    moreover have "sum_list (concat ret) \<le> 2 ^ 53"
    proof -
      from assms(3) have "real_of_int n \<le> real_of_int (2 ^ 53)" by (rule of_int_le_real)
      then show ?thesis using total by (simp add: sum_list_concat_real)
    qed
    ultimately have "np_sum ord (concat ret) = Finite (sum_list (concat ret))"
      using v by (intro np_sum_counts) simp_all
    then show "np_sum ord (concat ret) = Finite (real_of_int n)"
      using total by (simp add: sum_list_concat_real)
  }
  fix i assume i: "i < length rowNames"
  from table_row_sum [OF wf ge small d i]
  have "sum_list (ret ! i) = real_of_int (row_total (add_all ?ps []) (rowNames ! i))"
    by (simp only: r)
  then show rs: "sum_list (ret ! i) = real (length (filter (\<lambda>(nm, x). x = rowNames ! i) ?ps))"
    by (simp add: row_total_add_all row_total_Nil)
  {
    assume v: "valid_order ord"
    have "\<forall>x\<in>set (ret ! i). \<exists>k::nat. x = real k"
      unfolding ex using i cells_are_counts [OF ge] by auto
    moreover have "sum_list (ret ! i) \<le> 2 ^ 53"
    proof -
      have "row_total (results t') (rowNames ! i) \<le> 2 ^ 53"
        using row_total_le_grand_total [OF ge, of "rowNames ! i"] small by simp
      then have "real_of_int (row_total (results t') (rowNames ! i)) \<le> real_of_int (2 ^ 53)"
        by (rule of_int_le_real)
      then show ?thesis using table_row_sum [OF wf ge small d i] by simp
    qed
    ultimately have "np_sum ord (ret ! i) = Finite (sum_list (ret ! i))"
      using v by (intro np_sum_counts) simp_all
    then show "np_sum ord (ret ! i) =
               Finite (real (length (filter (\<lambda>(nm, x). x = rowNames ! i) ?ps)))"
      by (simp only: rs)
  }
qed

theorem table_sums_witness:
  "(0::int) \<le> 4 \<and> (4::int) \<le> 2 ^ 53
   \<and> results (UniformSelectionTrial_init [Die_init 2 None, Die_init 3 None]) = []
   \<and> fst (run 4 (UniformSelectionTrial_init [Die_init 2 None, Die_init 3 None])
            \<lparr>tape = Suc, pos = 0\<rparr>) = Inr ()
   \<and> dictsToTbl (results (fst (snd (run 4
         (UniformSelectionTrial_init [Die_init 2 None, Die_init 3 None])
         \<lparr>tape = Suc, pos = 0\<rparr>))))
       = Inr ([[1], [1], [2]], [PInt 1, PInt 2, PInt 3], [PInt 3])
   \<and> sum_list (map sum_list [[1], [1], [2 :: real]]) = real_of_int 4
   \<and> valid_order seq_order
   \<and> np_sum seq_order (concat [[1], [1], [2 :: real]]) = Finite (real_of_int 4)"
proof -
  let ?t = "UniformSelectionTrial_init [Die_init 2 None, Die_init 3 None]"
  let ?g = "\<lparr>tape = Suc, pos = 0\<rparr>"
  have h0: "(0::int) \<le> 4" by simp
  have hb: "(4::int) \<le> 2 ^ 53" by simp
  have h1: "results ?t = []" by code_simp
  have h2: "fst (run 4 ?t ?g) = Inr ()" by code_simp
  have res: "results (fst (snd (run 4 ?t ?g)))
              = [(PInt 3, [(PInt 3, 2)]), (PInt 2, [(PInt 3, 1)]), (PInt 1, [(PInt 3, 1)])]"
    by code_simp
  have h3: "dictsToTbl (results (fst (snd (run 4 ?t ?g))))
              = Inr ([[1], [1], [2]], [PInt 1, PInt 2, PInt 3], [PInt 3])"
    unfolding res
    by (simp add: dictsToTbl_def sorted_py_def set_update_def zeros_def float_of_int_small)
  have e: "run 4 ?t ?g = (Inr (), fst (snd (run 4 ?t ?g)), snd (snd (run 4 ?t ?g)))"
    using h2 by (metis prod.collapse)
  have v: "valid_order seq_order" by (rule valid_seq_order)
  have "sum_list (map sum_list [[1], [1], [2 :: real]]) = real_of_int 4
      \<and> np_sum seq_order (concat [[1], [1], [2 :: real]]) = Finite (real_of_int 4)"
    using table_sums [OF e h0 hb h1, of seq_order] h3 v by blast
  with h0 hb h1 h2 h3 v show ?thesis by blast
qed

theorem table_sums_counterexample:
  "fst (run 9007199254740993 (UniformSelectionTrial_init [Die_init 1 None])
          \<lparr>tape = Suc, pos = 0\<rparr>) = Inr ()
   \<and> dictsToTbl (results (fst (snd (run 9007199254740993
         (UniformSelectionTrial_init [Die_init 1 None]) \<lparr>tape = Suc, pos = 0\<rparr>))))
       = Inr ([[9007199254740992]], [PInt 1], [PInt 1])
   \<and> sum_list (map sum_list [[9007199254740992 :: real]]) \<noteq> real_of_int 9007199254740993"
proof -
  have "dictsToTbl [(PInt 1, [(PInt 1, 9007199254740993)])]
       = Inr ([[9007199254740992]], [PInt 1], [PInt 1])"
    using float_of_int_big by (rule table_one_cell)
  then show ?thesis by (simp add: run_one_die_big)
qed

section \<open>Normalisation\<close>

lemma norm_tbl_nth:
  assumes "r < length ar"
  shows "norm_tbl ord ar ! r = map (\<lambda>x. fdiv x (np_sum ord (ar ! r))) (ar ! r)"
  using assms by (simp add: norm_tbl_def)











lemma fl_one: "fl 1 = Finite 1"
  using fl_nat [of 1] by simp


section \<open>Tables of a trial\<close>

lemma cell_float_ok:
  assumes "counts_ok dd"
  shows "float_ok (cell dd r c)"
proof -
  let ?row = "dict_get dd r []"
  have z: "float_ok 0" by (rule float_ok_small) simp
  have "?row = [] \<or> (r, ?row) \<in> set dd" by (rule dict_get_row_mem)
  then have ok: "\<forall>y\<in>set (map snd ?row). float_ok y"
    using assms unfolding counts_ok_def list_all_iff by fastforce
  have "dict_get ?row c 0 = (0::int) \<or> (c, dict_get ?row c 0) \<in> set ?row"
    by (rule dict_get_count_mem)
  then show ?thesis
  proof
    assume "dict_get ?row c 0 = 0"
    then show ?thesis using z by (simp add: cell_def)
  next
    assume "(c, dict_get ?row c 0) \<in> set ?row"
    then have "cell dd r c \<in> set (map snd ?row)" by (force simp: cell_def)
    with ok show ?thesis by blast
  qed
qed

lemma sum_list_has_one:
  fixes xs :: "int list"
  assumes "1 \<le> sum_list xs"
  shows "\<exists>x\<in>set xs. 1 \<le> x"
proof (rule ccontr)
  assume "\<not> (\<exists>x\<in>set xs. 1 \<le> x)"
  then have "\<forall>x\<in>set xs. x \<le> 0" by force
  then have "sum_list xs \<le> 0" by (intro sum_list_nonpos) blast
  with assms show False by simp
qed

lemma row_has_count:
  assumes "wf_acc dd" and "rows_nonempty dd" and "counts_ge 1 dd" and "r \<in> fst ` set dd"
    and "distinct cols" and "set cols = set (col_keys dd)"
  shows "\<exists>c<length cols. 1 \<le> cell dd r (cols ! c)"
proof -
  have "1 \<le> row_total dd r" using assms(2,3,4) by (rule row_total_pos)
  then have "1 \<le> sum_list (map (\<lambda>c. cell dd r c) cols)"
    using row_sum_cells [OF assms(1,5,6), of r] by simp
  from sum_list_has_one [OF this] obtain c where "c \<in> set cols" and "1 \<le> cell dd r c"
    by auto
  then show ?thesis by (metis in_set_conv_nth)
qed

lemma real_member_le_sum_list:
  fixes xs :: "real list"
  assumes "\<forall>y\<in>set xs. 0 \<le> y" and "x \<in> set xs"
  shows "x \<le> sum_list xs"
  using assms
proof (induction xs)
  case Nil
  then show ?case by simp
next
  case (Cons y ys)
  have nn: "0 \<le> sum_list ys" by (rule sum_list_nonneg) (use Cons.prems in force)
  show ?case
  proof (cases "x = y")
    case True
    with nn show ?thesis by simp
  next
    case False
    with Cons.prems have "x \<in> set ys" and "\<forall>y\<in>set ys. 0 \<le> y" and "0 \<le> y" by simp_all
    with Cons.IH show ?thesis by simp
  qed
qed

lemma np_sum_pos:
  assumes "valid_order ord" and "\<forall>x\<in>set xs. 0 \<le> x" and "i < length xs" and "1 \<le> xs ! i"
  shows "np_sum ord xs = PosInf \<or> (\<exists>s. np_sum ord xs = Finite s \<and> 1 \<le> s)"
proof -
  from assms(3) have ne: "xs \<noteq> []" and l: "0 < length xs" by auto
  from assms(1) l have s: "sort (elems (ord (length xs))) = [0..<length xs]"
    by (simp add: valid_order_def)
  from elems_all(2) [OF s] have e: "set (elems (ord (length xs))) = {0..<length xs}" .
  have nn: "\<forall>i\<in>set (elems (ord (length xs))). 0 \<le> xs ! i"
    using assms(2) by (simp add: e)
  have ex: "\<exists>i\<in>set (elems (ord (length xs))). 1 \<le> xs ! i"
    using assms(3,4) e by auto
  from fsum_pos [OF nn] ex show ?thesis using ne by (auto simp: np_sum_def)
qed

lemma fdiv_by_sum:
  assumes "0 \<le> x" and "x \<le> max_float" and "1 \<le> s"
  shows "fdiv x (Finite s) = Finite (r64 (x / s))" and "0 \<le> r64 (x / s)"
proof -
  have q0: "0 \<le> x / s" using assms(1,3) by simp
  have "x / s \<le> x / 1" using assms(1,3) by (intro divide_left_mono) simp_all
  then have "x / s \<le> max_float" using assms(2) by simp
  from r64_le_max [OF q0 this] have "r64 (x / s) < 2 ^ 1024" by (simp add: max_float_def)
  moreover show "0 \<le> r64 (x / s)" using q0 by (rule r64_nonneg)
  ultimately have "fl (x / s) = Finite (r64 (x / s))" by (simp add: fl_def Let_def)
  then show "fdiv x (Finite s) = Finite (r64 (x / s))" using assms(3) by simp
qed

lemma counts_ok_add_all:
  assumes "int (length ps) \<le> 2 ^ 53"
  shows "counts_ok (add_all ps [])"
proof -
  have "counts_ge 0 (add_all ps [])" by (simp add: counts_ge_add_all counts_ge_Nil)
  moreover have "grand_total (add_all ps []) \<le> 2 ^ 53"
    using assms by (simp add: grand_total_add_all grand_total_Nil)
  moreover have "wf_acc (add_all ps [])" by (simp add: wf_acc_add_all wf_acc_Nil)
  ultimately show ?thesis by (rule counts_ok_small)
qed

text \<open>
  C10: in an accumulator built by \<^verbatim>\<open>_add\<close> from the empty one, as that of a run on a
  fresh trial is, every outcome has a non-empty row whose counts are at least 1; so every
  row of a table that \<^verbatim>\<open>dictsToTbl\<close> returns for it (it returns one if the labels can
  be sorted and the counts fit a float, as they do up to \<open>2^53\<close> draws) has a positive
  sum: its cells sum to a positive number, and the float that numpy computes for the sum,
  in whatever order it adds, is at least 1 or infinite. So \<^verbatim>\<open>norm\<close> divides by no zero
  there, and every cell of the normalised table is a finite float, the rounded quotient.
\<close>

theorem norm_defined:
  "rows_nonempty (add_all ps []) \<and> counts_ge 1 (add_all ps [])
   \<and> (int (length ps) \<le> 2 ^ 53 \<longrightarrow> counts_ok (add_all ps []))
   \<and> (comparable (map fst (add_all ps [])) \<and> comparable (col_keys (add_all ps []))
        \<and> counts_ok (add_all ps []) \<longrightarrow>
        (\<exists>ret rowNames colNames. dictsToTbl (add_all ps []) = Inr (ret, rowNames, colNames)))
   \<and> (dictsToTbl (add_all ps []) = Inr (ret, rowNames, colNames) \<longrightarrow>
        (\<forall>r<length ret. 0 < sum_list (ret ! r)
           \<and> (valid_order ord \<longrightarrow>
                (np_sum ord (ret ! r) = PosInf
                   \<and> (\<forall>c<length (ret ! r). norm_tbl ord ret ! r ! c = Finite 0))
              \<or> (\<exists>s. np_sum ord (ret ! r) = Finite s \<and> 1 \<le> s
                   \<and> (\<forall>c<length (ret ! r).
                         norm_tbl ord ret ! r ! c = Finite (r64 (ret ! r ! c / s))
                       \<and> 0 \<le> r64 (ret ! r ! c / s))))))
   \<and> (results t = [] \<longrightarrow>
        results (fst (snd (run n t g))) = add_all (run_log (nat n) t g) [])"
proof -
  let ?dd = "add_all ps []"
  have ne: "rows_nonempty ?dd" by (simp add: rows_nonempty_add_all rows_nonempty_Nil)
  have ge: "counts_ge 1 ?dd" by (simp add: counts_ge_add_all counts_ge_Nil)
  have ge0: "counts_ge 0 ?dd" by (simp add: counts_ge_add_all counts_ge_Nil)
  have wf: "wf_acc ?dd" by (simp add: wf_acc_add_all wf_acc_Nil)
  have ok: "int (length ps) \<le> 2 ^ 53 \<longrightarrow> counts_ok ?dd"
    using counts_ok_add_all by blast
  have ret: "comparable (map fst ?dd) \<and> comparable (col_keys ?dd) \<and> counts_ok ?dd \<longrightarrow>
        (\<exists>ret rowNames colNames. dictsToTbl ?dd = Inr (ret, rowNames, colNames))"
  proof
    assume "comparable (map fst ?dd) \<and> comparable (col_keys ?dd) \<and> counts_ok ?dd"
    then have "comparable (map fst ?dd)" and "comparable (col_keys ?dd)" and "counts_ok ?dd"
      by simp_all
    from dictsToTbl_spec [OF wf this]
    show "\<exists>ret rowNames colNames. dictsToTbl ?dd = Inr (ret, rowNames, colNames)" by blast
  qed
  have tbl: "dictsToTbl ?dd = Inr (ret, rowNames, colNames) \<longrightarrow>
        (\<forall>r<length ret. 0 < sum_list (ret ! r)
           \<and> (valid_order ord \<longrightarrow>
                (np_sum ord (ret ! r) = PosInf
                   \<and> (\<forall>c<length (ret ! r). norm_tbl ord ret ! r ! c = Finite 0))
              \<or> (\<exists>s. np_sum ord (ret ! r) = Finite s \<and> 1 \<le> s
                   \<and> (\<forall>c<length (ret ! r).
                         norm_tbl ord ret ! r ! c = Finite (r64 (ret ! r ! c / s))
                       \<and> 0 \<le> r64 (ret ! r ! c / s)))))"
  proof (intro impI allI)
    fix i
    assume d: "dictsToTbl ?dd = Inr (ret, rowNames, colNames)" and i: "i < length ret"
    note p = dictsToTbl_returns [OF wf d]
    have l: "length ret = length rowNames" using p(1) by simp
    with i have ir: "i < length rowNames" by simp
    then have key: "rowNames ! i \<in> fst ` set ?dd" using p(2) by (metis nth_mem set_map)
    let ?k = "rowNames ! i"
    have row: "ret ! i = map (\<lambda>c. r64 (real_of_int (cell ?dd ?k c))) colNames"
      using p(1) ir by simp
    have nn: "\<forall>x\<in>set (ret ! i). 0 \<le> x"
      using cell_bounds(1) [OF ge0] by (auto simp: row intro: r64_nonneg)
    have mx: "\<forall>x\<in>set (ret ! i). x \<le> max_float"
    proof
      fix x assume "x \<in> set (ret ! i)"
      then obtain c where x: "x = r64 (real_of_int (cell ?dd ?k c))" by (auto simp: row)
      have "0 \<le> real_of_int (cell ?dd ?k c)" using cell_bounds(1) [OF ge0] by simp
      moreover have "r64 (real_of_int (cell ?dd ?k c)) < 2 ^ 1024"
        using cell_float_ok [OF p(8), of ?k c] cell_bounds(1) [OF ge0, of ?k c]
        by (simp add: float_ok_def)
      ultimately show "x \<le> max_float" unfolding x by (rule r64_finite_le_max)
    qed
    from row_has_count [OF wf ne ge key p(6) p(5)] obtain c
      where c: "c < length colNames" and c1: "1 \<le> cell ?dd ?k (colNames ! c)" by blast
    have cl: "c < length (ret ! i)" using c by (simp add: row)
    have "1 \<le> real_of_int (cell ?dd ?k (colNames ! c))" using c1 by simp
    then have one: "1 \<le> ret ! i ! c" using c by (simp add: row r64_ge_one)
    have "ret ! i ! c \<le> sum_list (ret ! i)"
      using nn cl by (intro real_member_le_sum_list) simp_all
    with one have pos: "0 < sum_list (ret ! i)" by simp
    have nrm: "norm_tbl ord ret ! i = map (\<lambda>x. fdiv x (np_sum ord (ret ! i))) (ret ! i)"
      using i by (rule norm_tbl_nth)
    have fl: "valid_order ord \<longrightarrow>
                (np_sum ord (ret ! i) = PosInf
                   \<and> (\<forall>c<length (ret ! i). norm_tbl ord ret ! i ! c = Finite 0))
              \<or> (\<exists>s. np_sum ord (ret ! i) = Finite s \<and> 1 \<le> s
                   \<and> (\<forall>c<length (ret ! i).
                         norm_tbl ord ret ! i ! c = Finite (r64 (ret ! i ! c / s))
                       \<and> 0 \<le> r64 (ret ! i ! c / s)))"
    proof
      assume v: "valid_order ord"
      from np_sum_pos [OF v nn cl one]
      show "(np_sum ord (ret ! i) = PosInf
                   \<and> (\<forall>c<length (ret ! i). norm_tbl ord ret ! i ! c = Finite 0))
              \<or> (\<exists>s. np_sum ord (ret ! i) = Finite s \<and> 1 \<le> s
                   \<and> (\<forall>c<length (ret ! i).
                         norm_tbl ord ret ! i ! c = Finite (r64 (ret ! i ! c / s))
                       \<and> 0 \<le> r64 (ret ! i ! c / s)))"
      proof
        assume inf: "np_sum ord (ret ! i) = PosInf"
        then have "\<forall>c<length (ret ! i). norm_tbl ord ret ! i ! c = Finite 0"
          by (simp add: nrm)
        with inf show ?thesis by blast
      next
        assume "\<exists>s. np_sum ord (ret ! i) = Finite s \<and> 1 \<le> s"
        then obtain s where s: "np_sum ord (ret ! i) = Finite s" and s1: "1 \<le> s" by blast
        have "\<forall>c<length (ret ! i).
                 norm_tbl ord ret ! i ! c = Finite (r64 (ret ! i ! c / s))
               \<and> 0 \<le> r64 (ret ! i ! c / s)"
        proof (intro allI impI)
          fix j assume j: "j < length (ret ! i)"
          then have "0 \<le> ret ! i ! j" and "ret ! i ! j \<le> max_float"
            using nn mx by simp_all
          from fdiv_by_sum [OF this s1]
          show "norm_tbl ord ret ! i ! j = Finite (r64 (ret ! i ! j / s))
               \<and> 0 \<le> r64 (ret ! i ! j / s)"
            using j by (simp add: nrm s)
        qed
        with s s1 show ?thesis by blast
      qed
    qed
    from pos fl show "0 < sum_list (ret ! i)
           \<and> (valid_order ord \<longrightarrow>
                (np_sum ord (ret ! i) = PosInf
                   \<and> (\<forall>c<length (ret ! i). norm_tbl ord ret ! i ! c = Finite 0))
              \<or> (\<exists>s. np_sum ord (ret ! i) = Finite s \<and> 1 \<le> s
                   \<and> (\<forall>c<length (ret ! i).
                         norm_tbl ord ret ! i ! c = Finite (r64 (ret ! i ! c / s))
                       \<and> 0 \<le> r64 (ret ! i ! c / s))))"
      by blast
  qed
  have "results t = [] \<longrightarrow> results (fst (snd (run n t g))) = add_all (run_log (nat n) t g) []"
    using run_loop_results [of "nat n" t g] by (simp add: run_def)
  with ne ge ok ret tbl show ?thesis by blast
qed

lemma add_all_example:
  "add_all [(PInt 3, PInt 3), (PInt 3, PInt 2), (PInt 4, PInt 2)] []
     = [(PInt 3, [(PInt 3, 1)]), (PInt 2, [(PInt 3, 1), (PInt 4, 1)])]"
  by code_simp

lemma table_of_example:
  "dictsToTbl [(PInt 3, [(PInt 3, 1)]), (PInt 2, [(PInt 3, 1), (PInt 4, 1)])]
     = Inr ([[1, 1], [1, 0]], [PInt 2, PInt 3], [PInt 3, PInt 4])"
  by (simp add: dictsToTbl_def sorted_py_def set_update_def zeros_def float_of_int_small)

theorem norm_defined_witness:
  "int (length [(PInt 3, PInt 3), (PInt 3, PInt 2), (PInt 4, PInt 2)]) \<le> 2 ^ 53
   \<and> counts_ok (add_all [(PInt 3, PInt 3), (PInt 3, PInt 2), (PInt 4, PInt 2)] [])
   \<and> dictsToTbl (add_all [(PInt 3, PInt 3), (PInt 3, PInt 2), (PInt 4, PInt 2)] [])
       = Inr ([[1, 1], [1, 0]], [PInt 2, PInt 3], [PInt 3, PInt 4])
   \<and> (1::nat) < length [[1, 1], [1, 0 :: real]]
   \<and> 0 < sum_list ([[1, 1], [1, 0 :: real]] ! 1)
   \<and> valid_order seq_order
   \<and> np_sum seq_order ([[1, 1], [1, 0]] ! 1) = Finite 1
   \<and> (\<exists>s. np_sum seq_order ([[1, 1], [1, 0]] ! 1) = Finite s \<and> 1 \<le> s
         \<and> (\<forall>c<length ([[1, 1], [1, 0 :: real]] ! 1).
               norm_tbl seq_order [[1, 1], [1, 0]] ! 1 ! c
                 = Finite (r64 ([[1, 1], [1, 0]] ! 1 ! c / s))))"
proof -
  let ?ps = "[(PInt 3, PInt 3), (PInt 3, PInt 2), (PInt 4, PInt 2)]"
  have b: "int (length ?ps) \<le> 2 ^ 53" by simp
  have d: "dictsToTbl (add_all ?ps []) = Inr ([[1, 1], [1, 0]], [PInt 2, PInt 3], [PInt 3, PInt 4])"
    by (simp only: add_all_example table_of_example)
  have l: "(1::nat) < length [[1, 1], [1, 0 :: real]]" by simp
  have v: "valid_order seq_order" by (rule valid_seq_order)
  have s: "np_sum seq_order ([[1, 1], [1, 0]] ! 1) = Finite 1"
    by (simp add: np_sum_def numeral_2_eq_2 fl_one)
  note t = norm_defined [of ?ps "[[1, 1], [1, 0]]" "[PInt 2, PInt 3]" "[PInt 3, PInt 4]" seq_order]
  have ok: "counts_ok (add_all ?ps [])" using t b by blast
  have pos: "0 < sum_list ([[1, 1], [1, 0 :: real]] ! 1)" using t d l by blast
  have "(np_sum seq_order ([[1, 1], [1, 0]] ! 1) = PosInf
           \<and> (\<forall>c<length ([[1, 1], [1, 0 :: real]] ! 1).
                 norm_tbl seq_order [[1, 1], [1, 0]] ! 1 ! c = Finite 0))
      \<or> (\<exists>s. np_sum seq_order ([[1, 1], [1, 0]] ! 1) = Finite s \<and> 1 \<le> s
           \<and> (\<forall>c<length ([[1, 1], [1, 0 :: real]] ! 1).
                 norm_tbl seq_order [[1, 1], [1, 0]] ! 1 ! c
                   = Finite (r64 ([[1, 1], [1, 0]] ! 1 ! c / s))
               \<and> 0 \<le> r64 ([[1, 1], [1, 0]] ! 1 ! c / s)))"
    using t d l v by blast
  then have "\<exists>s. np_sum seq_order ([[1, 1], [1, 0]] ! 1) = Finite s \<and> 1 \<le> s
           \<and> (\<forall>c<length ([[1, 1], [1, 0 :: real]] ! 1).
                 norm_tbl seq_order [[1, 1], [1, 0]] ! 1 ! c
                   = Finite (r64 ([[1, 1], [1, 0]] ! 1 ! c / s)))"
    using s by auto
  with b ok d l pos v s show ?thesis by blast
qed

section \<open>The probability of heads\<close>

lemma uniform_raw:
  "fst (uniform (- 1) 1 g) = (real (tape g (pos g) mod 2 ^ 53) - 2 ^ 52) / 2 ^ 52"
proof -
  have "fst (uniform (- 1) 1 g) = 2 * (real (tape g (pos g) mod 2 ^ 53) / 2 ^ 53) - 1"
    by (simp add: uniform_unit random_unit_def next_raw_def)
  also have "\<dots> = (real (tape g (pos g) mod 2 ^ 53) - 2 ^ 52) / 2 ^ 52"
    by (simp add: diff_divide_distrib)
  finally show ?thesis .
qed

lemma heads_raw:
  assumes "r < 2 ^ 53"
  shows "fst (draw (Coin_init fmt b) (with_raw g r)) = Inr (PStr ''Heads'')
         \<longleftrightarrow> real r < (b + 1) * 2 ^ 52"
proof -
  have "fst (uniform (- 1) 1 (with_raw g r)) = (real r - 2 ^ 52) / 2 ^ 52"
    using assms by (simp add: uniform_raw with_raw_def)
  then have "fst (draw (Coin_init fmt b) (with_raw g r)) = Inr (PStr ''Heads'')
             \<longleftrightarrow> (real r - 2 ^ 52) / 2 ^ 52 < b"
    by (simp add: draw_Coin)
  also have "\<dots> \<longleftrightarrow> real r < (b + 1) * 2 ^ 52"
    by (simp add: pos_divide_less_eq algebra_simps)
  finally show ?thesis .
qed

lemma heads_count:
  assumes "- 1 \<le> b" and "b \<le> 1"
  shows "{r \<in> {..<2 ^ 53}. fst (draw (Coin_init fmt b) (with_raw g r)) = Inr (PStr ''Heads'')}
         = {..<nat \<lceil>(b + 1) * 2 ^ 52\<rceil>}"
proof -
  define x where "x = (b + 1) * 2 ^ 52"
  define M :: nat where "M = 2 ^ 53"
  have hr: "fst (draw (Coin_init fmt b) (with_raw g r)) = Inr (PStr ''Heads'') \<longleftrightarrow> real r < x"
    if "r < M" for r
    unfolding x_def using that [unfolded M_def] by (rule heads_raw)
  have "x \<le> 2 * 2 ^ 52" unfolding x_def using assms(2) by (intro mult_right_mono) simp_all
  then have "x \<le> real_of_int (int M)" by (simp add: M_def)
  then have "\<lceil>x\<rceil> \<le> int M" by (simp only: ceiling_le_iff)
  then have N: "nat \<lceil>x\<rceil> \<le> M" by (simp only: nat_le_iff)
  have lt: "real r < x \<longleftrightarrow> r < nat \<lceil>x\<rceil>" for r
  proof -
    have "real r < x \<longleftrightarrow> real_of_int (int r) < x" by simp
    also have "\<dots> \<longleftrightarrow> int r < \<lceil>x\<rceil>" by (simp only: less_ceiling_iff)
    also have "\<dots> \<longleftrightarrow> r < nat \<lceil>x\<rceil>" by (simp only: zless_nat_eq_int_zless)
    finally show ?thesis .
  qed
  have "{r \<in> {..<M}. fst (draw (Coin_init fmt b) (with_raw g r)) = Inr (PStr ''Heads'')}
         = {..<nat \<lceil>x\<rceil>}"
  proof (rule set_eqI)
    fix r
    show "r \<in> {r \<in> {..<M}. fst (draw (Coin_init fmt b) (with_raw g r)) = Inr (PStr ''Heads'')}
          \<longleftrightarrow> r \<in> {..<nat \<lceil>x\<rceil>}"
    proof (cases "r < M")
      case True
      from hr [OF True] lt [of r] True show ?thesis
        by (simp only: mem_Collect_eq lessThan_iff) blast
    next
      case False
      from False N have "\<not> r < nat \<lceil>x\<rceil>" by linarith
      with False show ?thesis by (simp only: mem_Collect_eq lessThan_iff) blast
    qed
  qed
  then show ?thesis unfolding x_def M_def .
qed

lemma heads_probability_Coin:
  assumes "- 1 \<le> b" and "b \<le> 1"
  shows "heads_probability (Coin_init fmt b) g = real_of_int \<lceil>(b + 1) * 2 ^ 52\<rceil> / 2 ^ 53"
proof -
  define x where "x = (b + 1) * 2 ^ 52"
  have "0 \<le> x" unfolding x_def using assms(1) by simp
  then have "- 1 < x" by simp
  then have "0 \<le> \<lceil>x\<rceil>" by (simp only: zero_le_ceiling)
  then have "real (nat \<lceil>x\<rceil>) = real_of_int \<lceil>x\<rceil>" by simp
  then show ?thesis
    unfolding heads_probability_def heads_count [OF assms] x_def by (simp only: card_lessThan)
qed

lemma heads_probability_high:
  assumes "1 \<le> b"
  shows "heads_probability (Coin_init fmt b) g = 1"
proof -
  have "{r \<in> {..<2 ^ 53}. fst (draw (Coin_init fmt b) (with_raw g r)) = Inr (PStr ''Heads'')}
        = {..<2 ^ 53}"
  proof (rule set_eqI)
    fix r :: nat
    show "r \<in> {r \<in> {..<2 ^ 53}. fst (draw (Coin_init fmt b) (with_raw g r)) = Inr (PStr ''Heads'')}
          \<longleftrightarrow> r \<in> {..<2 ^ 53}"
    proof (cases "r < 2 ^ 53")
      case True
      then have "real r < real (2 ^ 53)" by (simp only: of_nat_less_iff)
      then have "real r < 2 * 2 ^ 52" by simp
      also have "2 * 2 ^ 52 \<le> (b + 1) * 2 ^ 52" using assms by (intro mult_right_mono) simp_all
      finally show ?thesis using True by (simp add: heads_raw del: One_nat_def)
    next
      case False
      then show ?thesis by simp
    qed
  qed
  then show ?thesis unfolding heads_probability_def by (simp only: card_lessThan) simp
qed

lemma heads_probability_low:
  assumes "b \<le> - 1"
  shows "heads_probability (Coin_init fmt b) g = 0"
proof -
  have "{r \<in> {..<2 ^ 53}. fst (draw (Coin_init fmt b) (with_raw g r)) = Inr (PStr ''Heads'')} = {}"
  proof -
    have "\<not> real r < (b + 1) * 2 ^ 52" for r :: nat
    proof -
      have "(b + 1) * 2 ^ 52 \<le> 0" using assms by (simp add: mult_le_0_iff)
      then show ?thesis by (simp add: not_less order_trans [of _ 0])
    qed
    then show ?thesis by (auto simp: heads_raw simp del: One_nat_def)
  qed
  then show ?thesis unfolding heads_probability_def by (simp only: card.empty of_nat_0 div_0)
qed


text \<open>
  C6, as amended: \<^verbatim>\<open>Coin(bias=1).draw()\<close> always returns heads and
  \<^verbatim>\<open>Coin(bias=-1).draw()\<close> always returns tails. A draw returns heads exactly when the
  sample of \<^verbatim>\<open>uniform(-1, 1)\<close> is below the bias; the sample is \<open>(k - 2^52) / 2^52\<close>
  for the raw output \<open>k < 2^53\<close> of \<^verbatim>\<open>random()\<close>, a multiple of \<open>2^-52\<close> in \<open>[-1, 1)\<close>.
  With the \<open>2^53\<close> raw outputs equally likely, the probability of heads for a bias in
  \<open>[-1, 1]\<close> is \<open>\<lceil>(bias + 1) * 2^52\<rceil> / 2^53\<close>: it is \<open>(bias + 1) / 2\<close> when the bias
  is a multiple of \<open>2^-52\<close> (as 0, 1, -1 and 0.5 are), and otherwise lies above it by less
  than \<open>2^-53\<close>. It is 1 for every bias from 1 on and 0 for every bias up to -1.
\<close>

theorem Coin_draw_heads:
  "fst (draw (Coin_init fmt 1) g) = Inr (PStr ''Heads'')
   \<and> fst (draw (Coin_init fmt (- 1)) g) = Inr (PStr ''Tails'')
   \<and> (fst (draw (Coin_init fmt b) g) = Inr (PStr ''Heads'') \<longleftrightarrow> fst (uniform (- 1) 1 g) < b)
   \<and> (fst (draw (Coin_init fmt b) g) = Inr (PStr ''Tails'') \<longleftrightarrow> \<not> fst (uniform (- 1) 1 g) < b)
   \<and> fst (uniform (- 1) 1 g) = (real (tape g (pos g) mod 2 ^ 53) - 2 ^ 52) / 2 ^ 52
   \<and> - 1 \<le> fst (uniform (- 1) 1 g) \<and> fst (uniform (- 1) 1 g) < 1
   \<and> (- 1 \<le> b \<and> b \<le> 1 \<longrightarrow>
        heads_probability (Coin_init fmt b) g = real_of_int \<lceil>(b + 1) * 2 ^ 52\<rceil> / 2 ^ 53
      \<and> (b + 1) / 2 \<le> heads_probability (Coin_init fmt b) g
      \<and> heads_probability (Coin_init fmt b) g < (b + 1) / 2 + 1 / 2 ^ 53
      \<and> ((\<exists>k::int. b = real_of_int k / 2 ^ 52) \<longrightarrow>
            heads_probability (Coin_init fmt b) g = (b + 1) / 2))
   \<and> (1 \<le> b \<longrightarrow> heads_probability (Coin_init fmt b) g = 1)
   \<and> (b \<le> - 1 \<longrightarrow> heads_probability (Coin_init fmt b) g = 0)"
proof -
  have d: "fst (draw (Coin_init fmt 1) g) = Inr (PStr ''Heads'')
   \<and> fst (draw (Coin_init fmt (- 1)) g) = Inr (PStr ''Tails'')
   \<and> (fst (draw (Coin_init fmt b) g) = Inr (PStr ''Heads'') \<longleftrightarrow> fst (uniform (- 1) 1 g) < b)
   \<and> (fst (draw (Coin_init fmt b) g) = Inr (PStr ''Tails'') \<longleftrightarrow> \<not> fst (uniform (- 1) 1 g) < b)
   \<and> - 1 \<le> fst (uniform (- 1) 1 g) \<and> fst (uniform (- 1) 1 g) < 1"
    using random_unit_range [of g] by (simp add: draw_Coin uniform_unit)
  have u: "fst (uniform (- 1) 1 g) = (real (tape g (pos g) mod 2 ^ 53) - 2 ^ 52) / 2 ^ 52"
    by (rule uniform_raw)
  have p: "- 1 \<le> b \<and> b \<le> 1 \<longrightarrow>
        heads_probability (Coin_init fmt b) g = real_of_int \<lceil>(b + 1) * 2 ^ 52\<rceil> / 2 ^ 53
      \<and> (b + 1) / 2 \<le> heads_probability (Coin_init fmt b) g
      \<and> heads_probability (Coin_init fmt b) g < (b + 1) / 2 + 1 / 2 ^ 53
      \<and> ((\<exists>k::int. b = real_of_int k / 2 ^ 52) \<longrightarrow>
            heads_probability (Coin_init fmt b) g = (b + 1) / 2)"
  proof
    assume "- 1 \<le> b \<and> b \<le> 1"
    then have b: "- 1 \<le> b" "b \<le> 1" by simp_all
    define x where "x = (b + 1) * 2 ^ 52"
    have h: "heads_probability (Coin_init fmt b) g = real_of_int \<lceil>x\<rceil> / 2 ^ 53"
      unfolding x_def using b by (rule heads_probability_Coin)
    have half: "(b + 1) / 2 = x / 2 ^ 53" by (simp add: x_def)
    have "x \<le> real_of_int \<lceil>x\<rceil>" by (rule le_of_int_ceiling)
    then have lo: "x / 2 ^ 53 \<le> real_of_int \<lceil>x\<rceil> / 2 ^ 53" by (rule divide_right_mono) simp
    have "real_of_int \<lceil>x\<rceil> < x + 1" using ceiling_correct [of x] by linarith
    then have "real_of_int \<lceil>x\<rceil> / 2 ^ 53 < (x + 1) / 2 ^ 53" by (rule divide_strict_right_mono) simp
    then have hi: "real_of_int \<lceil>x\<rceil> / 2 ^ 53 < x / 2 ^ 53 + 1 / 2 ^ 53"
      by (simp only: add_divide_distrib)
    have ex: "(\<exists>k::int. b = real_of_int k / 2 ^ 52) \<longrightarrow> real_of_int \<lceil>x\<rceil> / 2 ^ 53 = x / 2 ^ 53"
    proof
      assume "\<exists>k::int. b = real_of_int k / 2 ^ 52"
      then obtain k :: int where k: "b = real_of_int k / 2 ^ 52" by blast
      have "x = real_of_int (k + 2 ^ 52)" by (simp add: x_def k algebra_simps)
      then have "real_of_int \<lceil>x\<rceil> = x" by (simp only: ceiling_of_int)
      then show "real_of_int \<lceil>x\<rceil> / 2 ^ 53 = x / 2 ^ 53" by simp
    qed
    from lo hi ex show "heads_probability (Coin_init fmt b) g = real_of_int \<lceil>(b + 1) * 2 ^ 52\<rceil> / 2 ^ 53
      \<and> (b + 1) / 2 \<le> heads_probability (Coin_init fmt b) g
      \<and> heads_probability (Coin_init fmt b) g < (b + 1) / 2 + 1 / 2 ^ 53
      \<and> ((\<exists>k::int. b = real_of_int k / 2 ^ 52) \<longrightarrow>
            heads_probability (Coin_init fmt b) g = (b + 1) / 2)"
      unfolding h half using x_def by blast
  qed
  have hi: "1 \<le> b \<longrightarrow> heads_probability (Coin_init fmt b) g = 1"
    using heads_probability_high by blast
  have lo: "b \<le> - 1 \<longrightarrow> heads_probability (Coin_init fmt b) g = 0"
    using heads_probability_low by blast
  from d u p hi lo show ?thesis by blast
qed

theorem Coin_draw_heads_witness:
  "fst (draw (Coin_init (\<lambda>b. ''0.5'') (1 / 2)) \<lparr>tape = Suc, pos = 0\<rparr>) = Inr (PStr ''Heads'')
   \<and> fst (uniform (- 1) 1 \<lparr>tape = Suc, pos = 0\<rparr>) < 1 / 2
   \<and> - 1 \<le> (1 / 2 :: real) \<and> (1 / 2 :: real) \<le> 1
   \<and> (1 / 2 :: real) = real_of_int 2251799813685248 / 2 ^ 52
   \<and> heads_probability (Coin_init (\<lambda>b. ''0.5'') (1 / 2)) \<lparr>tape = Suc, pos = 0\<rparr> = 3 / 4
   \<and> (1 :: real) \<le> 1
   \<and> heads_probability (Coin_init (\<lambda>b. ''1'') 1) \<lparr>tape = Suc, pos = 0\<rparr> = 1
   \<and> (- 1 :: real) \<le> - 1
   \<and> heads_probability (Coin_init (\<lambda>b. ''-1'') (- 1)) \<lparr>tape = Suc, pos = 0\<rparr> = 0"
proof -
  let ?g = "\<lparr>tape = Suc, pos = 0\<rparr>"
  note t = Coin_draw_heads [of "\<lambda>b. ''0.5''" ?g "1 / 2"]
  have u: "fst (uniform (- 1) 1 ?g) < 1 / 2"
    by (simp add: uniform_def random_unit_def next_raw_def)
  have h: "fst (draw (Coin_init (\<lambda>b. ''0.5'') (1 / 2)) ?g) = Inr (PStr ''Heads'')"
    using t u by blast
  have r1: "- 1 \<le> (1 / 2 :: real)" and r2: "(1 / 2 :: real) \<le> 1" by simp_all
  have k: "(1 / 2 :: real) = real_of_int 2251799813685248 / 2 ^ 52" by simp
  then have e: "\<exists>k::int. (1 / 2 :: real) = real_of_int k / 2 ^ 52" by (rule exI)
  have "heads_probability (Coin_init (\<lambda>b. ''0.5'') (1 / 2)) ?g = (1 / 2 + 1) / 2"
    using t r1 r2 e by blast
  also have "((1 / 2 + 1) / 2 :: real) = 3 / 4" by simp
  finally have p: "heads_probability (Coin_init (\<lambda>b. ''0.5'') (1 / 2)) ?g = 3 / 4" .
  have o: "(1 :: real) \<le> 1" and m: "(- 1 :: real) \<le> - 1" by simp_all
  have one: "heads_probability (Coin_init (\<lambda>b. ''1'') 1) ?g = 1"
    using Coin_draw_heads [of "\<lambda>b. ''1''" ?g 1] o by blast
  have mone: "heads_probability (Coin_init (\<lambda>b. ''-1'') (- 1)) ?g = 0"
    using Coin_draw_heads [of "\<lambda>b. ''-1''" ?g "- 1"] m by blast
  from h u r1 r2 k p o one m mone show ?thesis by blast
qed

theorem Coin_draw_heads_counterexample:
  "heads_probability (Coin (1 / 2 ^ 53) (PStr ''Coin:1.1102230246251565e-16''))
      \<lparr>tape = Suc, pos = 0\<rparr>
     = 4503599627370497 / 2 ^ 53
   \<and> heads_probability (Coin (1 / 2 ^ 53) (PStr ''Coin:1.1102230246251565e-16''))
      \<lparr>tape = Suc, pos = 0\<rparr>
     \<noteq> (1 / 2 ^ 53 + 1) / 2"
proof -
  let ?p = "heads_probability (Coin (1 / 2 ^ 53) (PStr ''Coin:1.1102230246251565e-16''))
              \<lparr>tape = Suc, pos = 0\<rparr>"
  have i: "Coin (1 / 2 ^ 53) (PStr ''Coin:1.1102230246251565e-16'')
           = Coin_init (\<lambda>b. ''1.1102230246251565e-16'') (1 / 2 ^ 53)"
    by (simp add: Coin_init_def)
  have x: "((1 / 2 ^ 53 + 1) * 2 ^ 52 :: real) = 4503599627370496 + 1 / 2" by simp
  have c: "\<lceil>4503599627370496 + 1 / 2 :: real\<rceil> = 4503599627370497"
    by (rule ceiling_unique) simp_all
  have "?p = real_of_int \<lceil>(1 / 2 ^ 53 + 1) * 2 ^ 52 :: real\<rceil> / 2 ^ 53"
    unfolding i by (rule heads_probability_Coin) simp_all
  then have p: "?p = 4503599627370497 / 2 ^ 53" by (simp only: x c of_int_numeral)
  have "(4503599627370497 / 2 ^ 53 :: real) \<noteq> (1 / 2 ^ 53 + 1) / 2" by simp
  with p show ?thesis by simp
qed

section \<open>The effects of a run\<close>

text \<open>
  What a method may change of the state: nothing of the store, and of the generator only
  its position, forwards.
\<close>

lemma reads_only_refl: "reads_only w w"
  by (simp add: reads_only_def)

lemma reads_only_trans: "reads_only w w1 \<Longrightarrow> reads_only w1 w2 \<Longrightarrow> reads_only w w2"
  by (auto simp: reads_only_def)

lemma reads_only_gen:
  "tape g' = tape (gen w) \<Longrightarrow> pos (gen w) \<le> pos g' \<Longrightarrow> reads_only w (w\<lparr>gen := g'\<rparr>)"
  by (simp add: reads_only_def)

lemma count_loop_reads_only:
  assumes "\<And>s. reads_only s (snd (d s))"
  shows "reads_only w (snd (count_loop d v n tally w))"
proof (induction n arbitrary: tally w)
  case 0
  show ?case by (simp add: reads_only_refl)
next
  case (Suc n)
  obtain y w1 where d: "d w = (y, w1)" by (cases "d w")
  then have a: "reads_only w w1" using assms [of w] by simp
  show ?case
  proof (cases y)
    case (Inl e)
    with d a show ?thesis by simp
  next
    case (Inr x)
    with d have "count_loop d v (Suc n) tally w
                 = count_loop d v n (if x = v then tally + 1 else tally) w1"
      by simp
    moreover have "reads_only w1 (snd (count_loop d v n (if x = v then tally + 1 else tally) w1))"
      by (rule Suc.IH)
    ultimately show ?thesis using a by (simp only: reads_only_trans)
  qed
qed

lemma draw_obj_reads_only: "reads_only w (snd (draw_obj d a w))"
proof (induction d arbitrary: a w)
  case 0
  show ?case by (simp add: reads_only_refl)
next
  case (Suc d)
  show ?case
  proof (cases "objs w a")
    case None
    then show ?thesis by (simp add: reads_only_refl)
  next
    case (Some ob)
    show ?thesis
    proof (cases ob)
      case (DieObj s nm)
      have "rng_adv (gen w) (snd (randint 1 s (gen w)))" by (rule randint_adv)
      then show ?thesis using Some DieObj
        by (auto simp: rng_adv_def reads_only_def split: prod.splits sum.splits)
    next
      case (CoinObj b nm)
      have "rng_adv (gen w) (snd (uniform (- 1) 1 (gen w)))" by (rule uniform_adv)
      then show ?thesis using Some CoinObj
        by (auto simp: rng_adv_def reads_only_def split: prod.splits)
    next
      case (CounterObj src v k nm)
      have "reads_only w (snd (count_loop (draw_obj d src) v (nat k) 0 w))"
        by (rule count_loop_reads_only) (rule Suc.IH)
      then show ?thesis using Some CounterObj by simp
    next
      case (TrialObj acc srcs)
      then show ?thesis using Some by (simp add: reads_only_refl)
    qed
  qed
qed

lemma chooseSource_obj_reads_only: "reads_only w (snd (chooseSource_obj t w))"
proof (cases "objs w t")
  case None
  then show ?thesis by (simp add: chooseSource_obj_def reads_only_refl)
next
  case (Some ob)
  show ?thesis
  proof (cases ob)
    case (TrialObj acc srcs)
    obtain y g' where c: "choice srcs (gen w) = (y, g')" by (cases "choice srcs (gen w)")
    then have "rng_adv (gen w) g'" using choice_adv [of "gen w" srcs] by simp
    then show ?thesis using Some TrialObj c
      by (simp add: chooseSource_obj_def reads_only_def rng_adv_def)
  qed (use Some in \<open>simp_all add: chooseSource_obj_def reads_only_refl\<close>)
qed

lemma chooseSource_obj_pos:
  "chooseSource_obj t w = (Inr a, w1) \<Longrightarrow> pos (gen w) < pos (gen w1)"
  by (auto simp: chooseSource_obj_def choice_def next_raw_def
      split: option.splits obj.splits prod.splits if_splits)

lemma same_but_results_refl: "same_but_results x x"
  by (simp add: same_but_results_def split: option.splits obj.splits)

lemma same_but_results_trans:
  "same_but_results x y \<Longrightarrow> same_but_results y z \<Longrightarrow> same_but_results x z"
  by (auto simp: same_but_results_def split: option.splits obj.splits)

lemma Trial_add_obj_frame: "run_frame_rel t w (snd (Trial_add_obj t nm r w))"
  by (auto simp: Trial_add_obj_def run_frame_rel_def same_but_results_def
      split: option.splits obj.splits)

lemma run_frame_rel_refl: "run_frame_rel t w w"
  by (simp add: run_frame_rel_def same_but_results_refl)

lemma run_frame_rel_trans:
  assumes "run_frame_rel t w w1" and "run_frame_rel t w1 w2"
  shows "run_frame_rel t w w2"
proof -
  from assms have o1: "objs w1 = (objs w)(t := objs w1 t)"
    and o2: "objs w2 = (objs w1)(t := objs w2 t)"
    and s1: "same_but_results (objs w t) (objs w1 t)"
    and s2: "same_but_results (objs w1 t) (objs w2 t)"
    and g: "tape (gen w2) = tape (gen w)" "pos (gen w) \<le> pos (gen w2)"
    by (simp_all add: run_frame_rel_def)
  have "objs w2 a = ((objs w)(t := objs w2 t)) a" for a
    using fun_cong [OF o1, of a] fun_cong [OF o2, of a] by (simp split: if_splits)
  then have "objs w2 = (objs w)(t := objs w2 t)" by (rule ext)
  moreover from s1 s2 have "same_but_results (objs w t) (objs w2 t)"
    by (rule same_but_results_trans)
  ultimately show ?thesis using g by (simp add: run_frame_rel_def)
qed

lemma reads_only_frame: "reads_only w w1 \<Longrightarrow> run_frame_rel t w w1"
  by (simp add: reads_only_def run_frame_rel_def same_but_results_refl)

lemma run_loop_obj_frame: "run_frame_rel t w (snd (run_loop_obj d n t w))"
proof (induction n arbitrary: w)
  case 0
  show ?case by (simp add: run_frame_rel_refl)
next
  case (Suc n)
  obtain y w1 where c: "chooseSource_obj t w = (y, w1)" by (cases "chooseSource_obj t w")
  then have a: "run_frame_rel t w w1"
    using chooseSource_obj_reads_only [of w t] by (simp add: reads_only_frame)
  show ?case
  proof (cases y)
    case (Inl e)
    with c a show ?thesis by simp
  next
    case (Inr src)
    show ?thesis
    proof (cases "name_obj src w1")
      case (Inl e)
      with c Inr a show ?thesis by simp
    next
      case nm: (Inr nm)
      obtain z w2 where dr: "draw_obj d src w1 = (z, w2)" by (cases "draw_obj d src w1")
      then have "run_frame_rel t w1 w2"
        using draw_obj_reads_only [of w1 d src] by (simp add: reads_only_frame)
      with a have b: "run_frame_rel t w w2" by (rule run_frame_rel_trans)
      show ?thesis
      proof (cases z)
        case (Inl e)
        with c Inr nm dr b show ?thesis by simp
      next
        case res: (Inr r)
        obtain u w3 where ad: "Trial_add_obj t nm r w2 = (u, w3)"
          by (cases "Trial_add_obj t nm r w2")
        then have "run_frame_rel t w2 w3" using Trial_add_obj_frame [of t w2 nm r] by simp
        with b have e: "run_frame_rel t w w3" by (rule run_frame_rel_trans)
        show ?thesis
        proof (cases u)
          case (Inl e')
          with c Inr nm dr res ad e show ?thesis by simp
        next
          case ok: (Inr x)
          have "run_frame_rel t w3 (snd (run_loop_obj d n t w3))" by (rule Suc.IH)
          with e have "run_frame_rel t w (snd (run_loop_obj d n t w3))"
            by (rule run_frame_rel_trans)
          with c Inr nm dr res ad ok show ?thesis by simp
        qed
      qed
    qed
  qed
qed

lemma run_loop_obj_pos:
  assumes "fst (run_loop_obj d (Suc m) t w) = Inr ()"
  shows "pos (gen w) < pos (gen (snd (run_loop_obj d (Suc m) t w)))"
proof -
  obtain y w1 where c: "chooseSource_obj t w = (y, w1)" by (cases "chooseSource_obj t w")
  show ?thesis
  proof (cases y)
    case (Inl e)
    with c assms show ?thesis by simp
  next
    case (Inr src)
    with c have p1: "pos (gen w) < pos (gen w1)" by (simp add: chooseSource_obj_pos)
    show ?thesis
    proof (cases "name_obj src w1")
      case (Inl e)
      with c Inr assms show ?thesis by simp
    next
      case nm: (Inr nm)
      obtain z w2 where dr: "draw_obj d src w1 = (z, w2)" by (cases "draw_obj d src w1")
      then have p2: "pos (gen w1) \<le> pos (gen w2)"
        using draw_obj_reads_only [of w1 d src] by (simp add: reads_only_def)
      show ?thesis
      proof (cases z)
        case (Inl e)
        with c Inr nm dr assms show ?thesis by simp
      next
        case res: (Inr r)
        obtain u w3 where ad: "Trial_add_obj t nm r w2 = (u, w3)"
          by (cases "Trial_add_obj t nm r w2")
        then have p3: "pos (gen w2) \<le> pos (gen w3)"
          using Trial_add_obj_frame [of t w2 nm r] by (simp add: run_frame_rel_def)
        show ?thesis
        proof (cases u)
          case (Inl e')
          with c Inr nm dr res ad assms show ?thesis by simp
        next
          case ok: (Inr x)
          have "pos (gen w3) \<le> pos (gen (snd (run_loop_obj d m t w3)))"
            using run_loop_obj_frame [of t w3 d m] by (simp add: run_frame_rel_def)
          with c Inr nm dr res ad ok p1 p2 p3 show ?thesis by simp
        qed
      qed
    qed
  qed
qed

section \<open>The store and the sources it holds\<close>

lemma count_loop_store:
  assumes "\<And>s. objs s = h \<Longrightarrow> dw s = (fst (dg (gen s)), s\<lparr>gen := snd (dg (gen s))\<rparr>)"
    and "objs w = h"
  shows "count_loop dw v n tally w =
           (fst (count_loop dg v n tally (gen w)),
            w\<lparr>gen := snd (count_loop dg v n tally (gen w))\<rparr>)"
  using assms(2)
proof (induction n arbitrary: tally w)
  case 0
  show ?case by simp
next
  case (Suc n)
  obtain y g1 where dg: "dg (gen w) = (y, g1)" by (cases "dg (gen w)")
  with assms(1) [OF Suc.prems] have dw: "dw w = (y, w\<lparr>gen := g1\<rparr>)" by simp
  show ?case
  proof (cases y)
    case (Inl e)
    with dg dw show ?thesis by simp
  next
    case (Inr x)
    have "objs (w\<lparr>gen := g1\<rparr>) = h" using Suc.prems by simp
    from Suc.IH [OF this, of "if x = v then tally + 1 else tally"] dg dw Inr
    show ?thesis by simp
  qed
qed

lemma draw_obj_draw:
  assumes "holds (objs w) a src" and "height src \<le> d"
  shows "draw_obj d a w = (fst (draw src (gen w)), w\<lparr>gen := snd (draw src (gen w))\<rparr>)"
  using assms
proof (induction src arbitrary: d a w)
  case (Die s nm)
  then obtain d' where d: "d = Suc d'" by (cases d) auto
  from Die.prems(1) have "objs w a = Some (DieObj s nm)" by simp
  then show ?case unfolding d by (simp split: prod.splits sum.splits)
next
  case (Coin b nm)
  then obtain d' where d: "d = Suc d'" by (cases d) auto
  from Coin.prems(1) have "objs w a = Some (CoinObj b nm)" by simp
  then show ?case unfolding d by (simp split: prod.splits)
next
  case (Counter src v k nm)
  then obtain d' where d: "d = Suc d'" and h: "height src \<le> d'" by (cases d) auto
  from Counter.prems(1) obtain a' where o: "objs w a = Some (CounterObj a' v k nm)"
    and r: "holds (objs w) a' src"
    by (auto split: option.splits obj.splits)
  have "draw_obj d' a' s = (fst (draw src (gen s)), s\<lparr>gen := snd (draw src (gen s))\<rparr>)"
    if "objs s = objs w" for s
    using r h that by (intro Counter.IH) simp_all
  from count_loop_store [where dw = "draw_obj d' a'" and dg = "draw src", OF this refl]
  show ?case unfolding d using o by simp
qed

lemma holds_name: "holds (objs w) a src \<Longrightarrow> name_obj a w = Inr (name src)"
  by (cases src) (auto simp: name_obj_def split: option.splits obj.splits)

lemma holds_upd:
  assumes "holds h a src" and "h t = Some (TrialObj acc srcs)"
  shows "holds (h(t \<mapsto> ob)) a src"
  using assms(1)
proof (induction src arbitrary: a)
  case (Die s nm)
  with assms(2) have "a \<noteq> t" by auto
  with Die show ?case by simp
next
  case (Coin b nm)
  with assms(2) have "a \<noteq> t" by auto
  with Coin show ?case by simp
next
  case (Counter src v k nm)
  from Counter.prems obtain a' where o: "h a = Some (CounterObj a' v k nm)"
    and r: "holds h a' src"
    by (auto split: option.splits obj.splits)
  with assms(2) have "a \<noteq> t" by auto
  with o Counter.IH [OF r] show ?case by simp
qed

lemma choice_store:
  assumes "list_all2 P srcs ss"
  shows "(\<exists>e. choice srcs g = (Inl e, g) \<and> choice ss g = (Inl e, g))
       \<or> (\<exists>a s. choice srcs g = (Inr a, snd (next_raw g))
                \<and> choice ss g = (Inr s, snd (next_raw g)) \<and> P a s \<and> s \<in> set ss)"
proof (cases "ss = []")
  case True
  with assms have "srcs = []" by simp
  with True show ?thesis by (simp add: choice_def)
next
  case False
  from assms have l: "length srcs = length ss" by (rule list_all2_lengthD)
  with False have ne: "srcs \<noteq> []" by auto
  obtain r g' where nr: "next_raw g = (r, g')" by (cases "next_raw g")
  have i: "r mod length ss < length ss" using False by simp
  with assms have "P (srcs ! (r mod length ss)) (ss ! (r mod length ss))"
    by (simp add: list_all2_nthD2)
  moreover have "ss ! (r mod length ss) \<in> set ss" using i by simp
  ultimately show ?thesis using False ne l nr by (simp add: choice_def)
qed

lemma run_loop_obj_run:
  assumes "objs w t = Some (TrialObj acc srcs)"
    and "list_all2 (holds (objs w)) srcs ss"
    and "\<forall>s\<in>set ss. height s \<le> d"
  shows "run_loop_obj d n t w =
           (fst (run_loop n \<lparr>results = acc, sources = ss\<rparr> (gen w)),
            w\<lparr>objs := (objs w)(t \<mapsto> TrialObj
                         (results (fst (snd (run_loop n \<lparr>results = acc, sources = ss\<rparr> (gen w)))))
                         srcs),
              gen := snd (snd (run_loop n \<lparr>results = acc, sources = ss\<rparr> (gen w)))\<rparr>)"
  using assms(1,2)
proof (induction n arbitrary: acc w)
  case 0
  then have "(objs w)(t \<mapsto> TrialObj acc srcs) = objs w" by (simp add: fun_upd_idem)
  then show ?case by simp
next
  case (Suc n)
  let ?tv = "\<lparr>results = acc, sources = ss\<rparr>"
  let ?g = "gen w"
  from choice_store [OF Suc.prems(2), of ?g]
  show ?case
  proof
    assume "\<exists>e. choice srcs ?g = (Inl e, ?g) \<and> choice ss ?g = (Inl e, ?g)"
    then obtain e where "choice srcs ?g = (Inl e, ?g)" and "choice ss ?g = (Inl e, ?g)" by blast
    moreover have "(objs w)(t \<mapsto> TrialObj acc srcs) = objs w"
      using Suc.prems(1) by (simp add: fun_upd_idem)
    ultimately show ?thesis
      using Suc.prems(1) by (simp add: chooseSource_obj_def chooseSource_def)
  next
    assume "\<exists>a s. choice srcs ?g = (Inr a, snd (next_raw ?g))
                \<and> choice ss ?g = (Inr s, snd (next_raw ?g)) \<and> holds (objs w) a s \<and> s \<in> set ss"
    then obtain a s where ca: "choice srcs ?g = (Inr a, snd (next_raw ?g))"
      and cs: "choice ss ?g = (Inr s, snd (next_raw ?g))"
      and h: "holds (objs w) a s" and m: "s \<in> set ss"
      by blast
    define g1 where "g1 = snd (next_raw ?g)"
    define w1 where "w1 = w\<lparr>gen := g1\<rparr>"
    have o1: "objs w1 = objs w" and gw1: "gen w1 = g1" by (simp_all add: w1_def)
    have c1: "chooseSource_obj t w = (Inr a, w1)"
      using Suc.prems(1) ca by (simp add: chooseSource_obj_def w1_def g1_def)
    have c2: "chooseSource ?tv ?g = (Inr s, g1)"
      using cs by (simp add: chooseSource_def g1_def)
    have h1: "holds (objs w1) a s" using h by (simp add: o1)
    have nm: "name_obj a w1 = Inr (name s)" using h1 by (rule holds_name)
    have hs: "height s \<le> d" using assms(3) m by blast
    obtain z g2 where dv: "draw s g1 = (z, g2)" by (cases "draw s g1")
    define w2 where "w2 = w\<lparr>gen := g2\<rparr>"
    have dr: "draw_obj d a w1 = (z, w2)"
      using draw_obj_draw [OF h1 hs] dv by (simp add: gw1 w1_def w2_def)
    show ?thesis
    proof (cases z)
      case (Inl e)
      have "(objs w)(t \<mapsto> TrialObj acc srcs) = objs w"
        using Suc.prems(1) by (simp add: fun_upd_idem)
      with Inl c1 c2 nm dv dr show ?thesis by (simp add: w2_def)
    next
      case (Inr r)
      define acc' where "acc' = Trial_add (name s) r acc"
      define w3 where "w3 = w2\<lparr>objs := (objs w2)(t \<mapsto> TrialObj acc' srcs)\<rparr>"
      have o2: "objs w2 t = Some (TrialObj acc srcs)" using Suc.prems(1) by (simp add: w2_def)
      have ad: "Trial_add_obj t (name s) r w2 = (Inr (), w3)"
        using o2 by (simp add: Trial_add_obj_def w3_def acc'_def)
      have o3: "objs w3 t = Some (TrialObj acc' srcs)" by (simp add: w3_def)
      have "list_all2 (holds (objs w3)) srcs ss"
      proof -
        have "holds (objs w3) x y" if "holds (objs w) x y" for x y
          using holds_upd [OF that Suc.prems(1), of "TrialObj acc' srcs"]
          by (simp add: w3_def w2_def)
        with Suc.prems(2) show ?thesis by (rule list_all2_mono)
      qed
      from Suc.IH [OF o3 this]
      have ih: "run_loop_obj d n t w3 =
           (fst (run_loop n \<lparr>results = acc', sources = ss\<rparr> (gen w3)),
            w3\<lparr>objs := (objs w3)(t \<mapsto> TrialObj
                         (results (fst (snd (run_loop n \<lparr>results = acc', sources = ss\<rparr> (gen w3)))))
                         srcs),
              gen := snd (snd (run_loop n \<lparr>results = acc', sources = ss\<rparr> (gen w3)))\<rparr>)" .
      have g3: "gen w3 = g2" by (simp add: w3_def w2_def)
      have lhs: "run_loop_obj d (Suc n) t w = run_loop_obj d n t w3"
        using c1 nm dr Inr ad by simp
      have rhs: "run_loop (Suc n) ?tv ?g = run_loop n \<lparr>results = acc', sources = ss\<rparr> g2"
        using c2 dv Inr by (simp add: acc'_def)
      define R where "R = run_loop n \<lparr>results = acc', sources = ss\<rparr> g2"
      have e: "w3\<lparr>objs := (objs w3)(t \<mapsto> X), gen := G\<rparr> = w\<lparr>objs := (objs w)(t \<mapsto> X), gen := G\<rparr>"
        for X G
        by (simp add: w3_def w2_def)
      have "run_loop_obj d (Suc n) t w =
              (fst R, w\<lparr>objs := (objs w)(t \<mapsto> TrialObj (results (fst (snd R))) srcs),
                        gen := snd (snd R)\<rparr>)"
        by (simp only: lhs ih g3 e R_def)
      moreover have "run_loop (Suc n) ?tv ?g = R" by (simp only: rhs R_def)
      ultimately show ?thesis by (simp only:)
    qed
  qed
qed

lemma same_but_results_Trial:
  assumes "same_but_results (Some (TrialObj acc srcs)) y"
  shows "\<exists>acc'. y = Some (TrialObj acc' srcs)"
proof (cases y)
  case None
  with assms show ?thesis by (simp add: same_but_results_def)
next
  case (Some ob)
  with assms show ?thesis by (cases ob) (simp_all add: same_but_results_def)
qed

lemma same_but_results_other:
  assumes "\<forall>acc srcs. x \<noteq> Some (TrialObj acc srcs)" and "same_but_results x y"
  shows "y = x"
proof (cases x)
  case None
  with assms(2) show ?thesis by (simp add: same_but_results_def)
next
  case (Some ob)
  with assms show ?thesis by (cases ob) (simp_all add: same_but_results_def)
qed

text \<open>
  C9, as amended: \<^verbatim>\<open>Trial.run(nDraws)\<close> mutates only the runner's own accumulator and
  the state of the process-wide random generator. On the store of all objects: every
  object other than the runner (each source and what it refers to, with its parameters
  and its name, and every object that has nothing to do with the run) is after the run
  what it was before; the runner is still a trial with the same collection of sources;
  nothing else of the state has changed; the generator has the sequence it had and has
  moved forward on it (strictly, when a run of at least one draw returns). When the store
  holds the sources \<open>ss\<close> at the addresses of the collection, the outcome, the accumulator
  and the generator after the run are those of \<open>run\<close> on the trial of these sources. The
  counterexample is a run of one draw, after which the generator is not in the state it
  was in.
\<close>

theorem run_frame:
  assumes "run_obj d n t w = (res, w')"
  shows "(\<forall>a. a \<noteq> t \<longrightarrow> objs w' a = objs w a)
       \<and> (\<forall>acc srcs. objs w t = Some (TrialObj acc srcs) \<longrightarrow>
            (\<exists>acc'. objs w' t = Some (TrialObj acc' srcs)))
       \<and> ((\<forall>acc srcs. objs w t \<noteq> Some (TrialObj acc srcs)) \<longrightarrow> objs w' t = objs w t)
       \<and> w' = w\<lparr>objs := (objs w)(t := objs w' t), gen := gen w'\<rparr>
       \<and> tape (gen w') = tape (gen w)
       \<and> pos (gen w) \<le> pos (gen w')
       \<and> (res = Inr () \<and> 0 < n \<longrightarrow> pos (gen w) < pos (gen w'))
       \<and> (\<forall>acc srcs ss.
            objs w t = Some (TrialObj acc srcs) \<and> list_all2 (holds (objs w)) srcs ss
              \<and> (\<forall>s\<in>set ss. height s \<le> d) \<longrightarrow>
            res = fst (run n \<lparr>results = acc, sources = ss\<rparr> (gen w))
          \<and> objs w' t =
              Some (TrialObj (results (fst (snd (run n \<lparr>results = acc, sources = ss\<rparr> (gen w)))))
                     srcs)
          \<and> gen w' = snd (snd (run n \<lparr>results = acc, sources = ss\<rparr> (gen w))))"
proof -
  have f: "run_frame_rel t w w'"
    using assms run_loop_obj_frame [of t w d "nat n"] by (simp add: run_obj_def)
  then have o: "objs w' = (objs w)(t := objs w' t)"
    and s: "same_but_results (objs w t) (objs w' t)"
    and g1: "tape (gen w') = tape (gen w)" and g2: "pos (gen w) \<le> pos (gen w')"
    by (simp_all add: run_frame_rel_def)
  have c1: "\<forall>a. a \<noteq> t \<longrightarrow> objs w' a = objs w a"
    using fun_cong [OF o] by (simp split: if_splits)
  have c2: "\<forall>acc srcs. objs w t = Some (TrialObj acc srcs) \<longrightarrow>
            (\<exists>acc'. objs w' t = Some (TrialObj acc' srcs))"
    using s same_but_results_Trial by metis
  have c3: "(\<forall>acc srcs. objs w t \<noteq> Some (TrialObj acc srcs)) \<longrightarrow> objs w' t = objs w t"
    using s same_but_results_other by blast
  have c4: "w' = w\<lparr>objs := (objs w)(t := objs w' t), gen := gen w'\<rparr>"
    using o by (cases w, cases w') simp
  have c5: "res = Inr () \<and> 0 < n \<longrightarrow> pos (gen w) < pos (gen w')"
  proof
    assume h: "res = Inr () \<and> 0 < n"
    then obtain m where m: "nat n = Suc m" by (cases "nat n") auto
    have "fst (run_loop_obj d (Suc m) t w) = Inr ()" using assms h m by (simp add: run_obj_def)
    from run_loop_obj_pos [OF this] show "pos (gen w) < pos (gen w')"
      using assms m by (simp add: run_obj_def)
  qed
  have c6: "\<forall>acc srcs ss.
            objs w t = Some (TrialObj acc srcs) \<and> list_all2 (holds (objs w)) srcs ss
              \<and> (\<forall>s\<in>set ss. height s \<le> d) \<longrightarrow>
            res = fst (run n \<lparr>results = acc, sources = ss\<rparr> (gen w))
          \<and> objs w' t =
              Some (TrialObj (results (fst (snd (run n \<lparr>results = acc, sources = ss\<rparr> (gen w)))))
                     srcs)
          \<and> gen w' = snd (snd (run n \<lparr>results = acc, sources = ss\<rparr> (gen w)))"
  proof (intro allI impI)
    fix acc srcs ss
    assume "objs w t = Some (TrialObj acc srcs) \<and> list_all2 (holds (objs w)) srcs ss
              \<and> (\<forall>s\<in>set ss. height s \<le> d)"
    then have a: "objs w t = Some (TrialObj acc srcs)"
      and b: "list_all2 (holds (objs w)) srcs ss" and c: "\<forall>s\<in>set ss. height s \<le> d"
      by simp_all
    from run_loop_obj_run [OF a b c, of "nat n"] assms
    show "res = fst (run n \<lparr>results = acc, sources = ss\<rparr> (gen w))
          \<and> objs w' t =
              Some (TrialObj (results (fst (snd (run n \<lparr>results = acc, sources = ss\<rparr> (gen w)))))
                     srcs)
          \<and> gen w' = snd (snd (run n \<lparr>results = acc, sources = ss\<rparr> (gen w)))"
      by (auto simp: run_obj_def run_def)
  qed
  from c1 c2 c3 c4 g1 g2 c5 c6 show ?thesis by blast
qed

theorem run_frame_witness:
  "fst (run_obj 5 2 2
          \<lparr>objs = no_objects(0 \<mapsto> DieObj 6 (PInt 6), 1 \<mapsto> CounterObj 0 (PInt 3) 2 (PInt 6),
                         2 \<mapsto> TrialObj [] [0, 1]),
            gen = \<lparr>tape = Suc, pos = 0\<rparr>\<rparr>) = Inr ()
   \<and> (0::nat) \<noteq> 2 \<and> (1::nat) \<noteq> 2
   \<and> objs (snd (run_obj 5 2 2
          \<lparr>objs = no_objects(0 \<mapsto> DieObj 6 (PInt 6), 1 \<mapsto> CounterObj 0 (PInt 3) 2 (PInt 6),
                         2 \<mapsto> TrialObj [] [0, 1]),
            gen = \<lparr>tape = Suc, pos = 0\<rparr>\<rparr>)) 0 = Some (DieObj 6 (PInt 6))
   \<and> objs (snd (run_obj 5 2 2
          \<lparr>objs = no_objects(0 \<mapsto> DieObj 6 (PInt 6), 1 \<mapsto> CounterObj 0 (PInt 3) 2 (PInt 6),
                         2 \<mapsto> TrialObj [] [0, 1]),
            gen = \<lparr>tape = Suc, pos = 0\<rparr>\<rparr>)) 1 = Some (CounterObj 0 (PInt 3) 2 (PInt 6))
   \<and> (\<exists>acc'. objs (snd (run_obj 5 2 2
          \<lparr>objs = no_objects(0 \<mapsto> DieObj 6 (PInt 6), 1 \<mapsto> CounterObj 0 (PInt 3) 2 (PInt 6),
                         2 \<mapsto> TrialObj [] [0, 1]),
            gen = \<lparr>tape = Suc, pos = 0\<rparr>\<rparr>)) 2 = Some (TrialObj acc' [0, 1]))
   \<and> pos (gen (snd (run_obj 5 2 2
          \<lparr>objs = no_objects(0 \<mapsto> DieObj 6 (PInt 6), 1 \<mapsto> CounterObj 0 (PInt 3) 2 (PInt 6),
                         2 \<mapsto> TrialObj [] [0, 1]),
            gen = \<lparr>tape = Suc, pos = 0\<rparr>\<rparr>))) > 0
   \<and> list_all2 (holds (no_objects(0 \<mapsto> DieObj 6 (PInt 6), 1 \<mapsto> CounterObj 0 (PInt 3) 2 (PInt 6),
                         2 \<mapsto> TrialObj [] [0, 1])))
         [0, 1] [Die 6 (PInt 6), Counter (Die 6 (PInt 6)) (PInt 3) 2 (PInt 6)]
   \<and> objs (snd (run_obj 5 2 2
          \<lparr>objs = no_objects(0 \<mapsto> DieObj 6 (PInt 6), 1 \<mapsto> CounterObj 0 (PInt 3) 2 (PInt 6),
                         2 \<mapsto> TrialObj [] [0, 1]),
            gen = \<lparr>tape = Suc, pos = 0\<rparr>\<rparr>)) 2
       = Some (TrialObj (results (fst (snd (run 2
            \<lparr>results = [], sources = [Die 6 (PInt 6), Counter (Die 6 (PInt 6)) (PInt 3) 2 (PInt 6)]\<rparr>
            \<lparr>tape = Suc, pos = 0\<rparr>)))) [0, 1])"
proof -
  define w where "w = \<lparr>objs = no_objects(0 \<mapsto> DieObj 6 (PInt 6), 1 \<mapsto> CounterObj 0 (PInt 3) 2 (PInt 6),
                         2 \<mapsto> TrialObj [] [0, 1]),
            gen = \<lparr>tape = Suc, pos = 0\<rparr>\<rparr>"
  define ss where "ss = [Die 6 (PInt 6), Counter (Die 6 (PInt 6)) (PInt 3) 2 (PInt 6)]"
  have h: "fst (run_obj 5 2 2 w) = Inr ()" unfolding w_def by code_simp
  have e: "run_obj 5 2 2 w = (fst (run_obj 5 2 2 w), snd (run_obj 5 2 2 w))" by simp
  note t = run_frame [OF e]
  have n0: "(0::nat) \<noteq> 2" and n1: "(1::nat) \<noteq> 2" by simp_all
  have o0: "objs w 0 = Some (DieObj 6 (PInt 6))"
    and o1: "objs w 1 = Some (CounterObj 0 (PInt 3) 2 (PInt 6))"
    and o2: "objs w 2 = Some (TrialObj [] [0, 1])"
    by (simp_all add: w_def)
  have hs: "list_all2 (holds (objs w)) [0, 1] ss" by (simp add: w_def ss_def)
  have ht: "\<forall>s\<in>set ss. height s \<le> 5" by (simp add: ss_def)
  have g0: "pos (gen w) = 0" by (simp add: w_def)
  have p: "0 < (2::int)" by simp
  have a0: "objs (snd (run_obj 5 2 2 w)) 0 = Some (DieObj 6 (PInt 6))"
    using t n0 o0 by metis
  have a1: "objs (snd (run_obj 5 2 2 w)) 1 = Some (CounterObj 0 (PInt 3) 2 (PInt 6))"
    using t n1 o1 by metis
  have a2: "\<exists>acc'. objs (snd (run_obj 5 2 2 w)) 2 = Some (TrialObj acc' [0, 1])"
    using t o2 by blast
  have "pos (gen w) < pos (gen (snd (run_obj 5 2 2 w)))" using t h p by blast
  then have a3: "pos (gen (snd (run_obj 5 2 2 w))) > 0" by (simp add: g0)
  have a4: "objs (snd (run_obj 5 2 2 w)) 2
       = Some (TrialObj (results (fst (snd (run 2 \<lparr>results = [], sources = ss\<rparr> (gen w))))) [0, 1])"
    using t o2 hs ht by blast
  have gw: "gen w = \<lparr>tape = Suc, pos = 0\<rparr>" and ow: "objs w = no_objects(0 \<mapsto> DieObj 6 (PInt 6), 1 \<mapsto> CounterObj 0 (PInt 3) 2 (PInt 6),
                         2 \<mapsto> TrialObj [] [0, 1])"
    by (simp_all add: w_def)
  from h n0 n1 a0 a1 a2 a3 hs a4 show ?thesis
    unfolding gw ow unfolding w_def ss_def by blast
qed

theorem run_frame_counterexample:
  "gen (snd (run_obj 5 1 1
       \<lparr>objs = no_objects(0 \<mapsto> DieObj 6 (PInt 6), 1 \<mapsto> TrialObj [] [0]),
        gen = \<lparr>tape = Suc, pos = 0\<rparr>\<rparr>))
     \<noteq> \<lparr>tape = Suc, pos = 0\<rparr>
   \<and> snd (snd (run 1 (UniformSelectionTrial_init [Die_init 6 None]) \<lparr>tape = Suc, pos = 0\<rparr>))
     \<noteq> \<lparr>tape = Suc, pos = 0\<rparr>"
proof -
  have "pos (gen (snd (run_obj 5 1 1
       \<lparr>objs = no_objects(0 \<mapsto> DieObj 6 (PInt 6), 1 \<mapsto> TrialObj [] [0]),
        gen = \<lparr>tape = Suc, pos = 0\<rparr>\<rparr>))) = 2"
    by code_simp
  then have a: "gen (snd (run_obj 5 1 1
       \<lparr>objs = no_objects(0 \<mapsto> DieObj 6 (PInt 6), 1 \<mapsto> TrialObj [] [0]),
        gen = \<lparr>tape = Suc, pos = 0\<rparr>\<rparr>))
     \<noteq> \<lparr>tape = Suc, pos = 0\<rparr>"
    by auto
  have "pos (snd (snd (run 1 (UniformSelectionTrial_init [Die_init 6 None]) \<lparr>tape = Suc, pos = 0\<rparr>))) = 2"
    by code_simp
  then have b: "snd (snd (run 1 (UniformSelectionTrial_init [Die_init 6 None]) \<lparr>tape = Suc, pos = 0\<rparr>))
     \<noteq> \<lparr>tape = Suc, pos = 0\<rparr>"
    by auto
  from a b show ?thesis by blast
qed

end
